theory Spec2Isabelle
  imports Complex_Main "HOL-Library.Multiset" "HOL-Library.Sublist"
begin

section \<open>Vectors, poses and exceptions\<close>

text \<open>
  The Python code computes on numpy float arrays. Numbers are modelled as \<^typ>\<open>real\<close>:
  rounding is not modelled, comparisons and the control flow they drive are.
  A pose is the 7-array of the source, split into its first three entries (the position,
  \<^verbatim>\<open>pose[:3]\<close>) and the remaining four (the orientation quaternion, scalar last).
\<close>

type_synonym vec3 = "real \<times> real \<times> real"
type_synonym quat = "real \<times> real \<times> real \<times> real"
type_synonym pose = "vec3 \<times> quat"

fun vadd :: "vec3 \<Rightarrow> vec3 \<Rightarrow> vec3" where
  "vadd (a1, a2, a3) (b1, b2, b3) = (a1 + b1, a2 + b2, a3 + b3)"

fun vsub :: "vec3 \<Rightarrow> vec3 \<Rightarrow> vec3" where
  "vsub (a1, a2, a3) (b1, b2, b3) = (a1 - b1, a2 - b2, a3 - b3)"

definition zeros3 :: vec3 where
  "zeros3 = (0, 0, 0)"

text \<open>The exceptions that the modelled code paths can raise.\<close>

datatype exn =
    ValueError
  | UnboundLocalError
  | IndexError
  | FileNotFoundError
  | RuntimeError

section \<open>The simulator boundary\<close>

text \<open>
  \<^verbatim>\<open>RobotCameraWrapper\<close> (package \<^verbatim>\<open>sim\<close>) is an external collaborator. Its state is a
  type parameter \<open>'w\<close>, a rendered frame a type parameter \<open>'img\<close>, and each method the
  replay calls is a field of the record: a method that changes the simulator returns the
  new state.
\<close>

record ('w, 'img) robot_camera =
  set_camera_pose :: "vec3 \<Rightarrow> quat \<Rightarrow> 'w \<Rightarrow> 'w"
  set_camera_fov :: "real \<Rightarrow> 'w \<Rightarrow> 'w"
  update_camera :: "'w \<Rightarrow> 'w"
  get_gripper_width_from_qpos :: "'w \<Rightarrow> real \<times> real"
  open_close_gripper :: "bool \<Rightarrow> 'w \<Rightarrow> 'w"
  drive_robot_to_target_pose :: "pose \<Rightarrow> 'w \<Rightarrow> (bool \<times> pose \<times> real) \<times> 'w"
  compute_eef_pose :: "'w \<Rightarrow> pose"
  joint_angles :: "'w \<Rightarrow> real list"
  get_observation_fast :: "'w \<Rightarrow> ('img \<times> 'img) \<times> 'w"

section \<open>Gripper matching (target\_env.py, lines 90--98)\<close>

text \<open>
  \<^verbatim>\<open>
  _, gripper_dist = self.target_env.get_gripper_width_from_qpos()
  attempt = 0
  while (gripper_dist < g - 0.1 or gripper_dist > g + 0.1) and attempt < 10:
      if gripper_dist < g - 0.1:
          self.target_env.open_close_gripper(gripper_open=True)
      elif gripper_dist > g + 0.1:
          self.target_env.open_close_gripper(gripper_open=False)
      _, gripper_dist = self.target_env.get_gripper_width_from_qpos()
      attempt += 1
  \<close>
  where \<open>g\<close> is \<^verbatim>\<open>gripper_array[pose_index]\<close>. The loop is the recursive function
  \<open>gripper_loop\<close>; its last argument collects, in order, every call of
  \<^verbatim>\<open>open_close_gripper\<close> as the pair of the width measured before the call and the
  \<^verbatim>\<open>gripper_open\<close> flag passed.
\<close>

function gripper_loop ::
  "('w, 'img) robot_camera \<Rightarrow> real \<Rightarrow> nat \<Rightarrow> real \<Rightarrow> 'w \<Rightarrow> (real \<times> bool) list
     \<Rightarrow> nat \<times> real \<times> 'w \<times> (real \<times> bool) list"
where
  "gripper_loop env g attempt gripper_dist w calls =
     (if (gripper_dist < g - 0.1 \<or> gripper_dist > g + 0.1) \<and> attempt < 10 then
        (if gripper_dist < g - 0.1 then
           gripper_loop env g (attempt + 1)
             (snd (get_gripper_width_from_qpos env (open_close_gripper env True w)))
             (open_close_gripper env True w)
             (calls @ [(gripper_dist, True)])
         else if gripper_dist > g + 0.1 then
           gripper_loop env g (attempt + 1)
             (snd (get_gripper_width_from_qpos env (open_close_gripper env False w)))
             (open_close_gripper env False w)
             (calls @ [(gripper_dist, False)])
         else
           gripper_loop env g (attempt + 1) (snd (get_gripper_width_from_qpos env w)) w calls)
      else (attempt, gripper_dist, w, calls))"
  by pat_completeness auto
termination
  by (relation "measure (\<lambda>(env, g, attempt, gripper_dist, w, calls). 10 - attempt)") auto

declare gripper_loop.simps [simp del]

definition match_gripper ::
  "('w, 'img) robot_camera \<Rightarrow> real \<Rightarrow> 'w \<Rightarrow> nat \<times> real \<times> 'w \<times> (real \<times> bool) list" where
  "match_gripper env g w =
     gripper_loop env g 0 (snd (get_gripper_width_from_qpos env w)) w []"

section \<open>Configuration tables and episode data\<close>

text \<open>
  One entry of \<^verbatim>\<open>ROBOT_CAMERA_POSES_DICT[robot_dataset]["viewpoints"]\<close>, the dataset
  entry itself (with the fields the replay reads), and the per-episode archive
  \<^verbatim>\<open>source_robot_states/<episode>.npz\<close> with its arrays \<^verbatim>\<open>pos\<close>, \<^verbatim>\<open>grip\<close> and the
  optional \<^verbatim>\<open>fov\<close>.
\<close>

record viewpoint =
  camera_position :: vec3
  roll :: real
  pitch :: real
  yaw :: real
  camera_fov :: real
  episodes :: "int list"

record dataset_info =
  viewpoints :: "viewpoint list"
  extend_gripper :: real

record episode_data =
  pos :: "pose list"
  grip :: "real list"
  fov :: "real option"

text \<open>
  What a \<^verbatim>\<open>TargetEnvWrapper\<close> instance and the module globals give to
  \<^verbatim>\<open>generate_image\<close>: the simulator methods (\<^verbatim>\<open>self.target_env\<close>), the function
  \<^verbatim>\<open>reach_further\<close> of package \<^verbatim>\<open>core.signal\<close>, the episode archives that
  \<^verbatim>\<open>np.load\<close> finds (\<open>None\<close>: no such file), the dataset entry
  \<^verbatim>\<open>ROBOT_CAMERA_POSES_DICT[robot_dataset]\<close> and the default displacement
  \<^verbatim>\<open>ROBOT_POSE_DICT[robot_dataset][self.target_name]\<close>. All of them are code or data
  outside the two source files and are parameters of the model.
\<close>

record ('w, 'img) wrapper =
  target_env :: "('w, 'img) robot_camera"
  reach_further :: "pose \<Rightarrow> real \<Rightarrow> pose"
  source_robot_states :: "int \<Rightarrow> episode_data option"
  camera_poses :: dataset_info
  robot_pose :: vec3

section \<open>Camera pose (target\_env.py, lines 45--59)\<close>

text \<open>
  \<^verbatim>\<open>R.from_euler('xyz', [roll, pitch, yaw], degrees=True).as_quat()\<close> is a call into
  scipy. Its documented contract: a lower-case axis sequence denotes extrinsic rotations
  (about the fixed axes, applied in the order written, so each later rotation multiplies
  from the left), an upper-case one intrinsic rotations; \<^verbatim>\<open>as_quat\<close> is scalar-last.
  \<open>quat_mul\<close> is the Hamilton product on scalar-last quadruples.
\<close>

fun quat_mul :: "quat \<Rightarrow> quat \<Rightarrow> quat" where
  "quat_mul (x1, y1, z1, w1) (x2, y2, z2, w2) =
     (w1 * x2 + x1 * w2 + y1 * z2 - z1 * y2,
      w1 * y2 - x1 * z2 + y1 * w2 + z1 * x2,
      w1 * z2 + x1 * y2 - y1 * x2 + z1 * w2,
      w1 * w2 - x1 * x2 - y1 * y2 - z1 * z2)"

definition radians :: "real \<Rightarrow> real" where
  "radians deg = deg * pi / 180"

definition quat_x :: "real \<Rightarrow> quat" where
  "quat_x deg = (sin (radians deg / 2), 0, 0, cos (radians deg / 2))"

definition quat_y :: "real \<Rightarrow> quat" where
  "quat_y deg = (0, sin (radians deg / 2), 0, cos (radians deg / 2))"

definition quat_z :: "real \<Rightarrow> quat" where
  "quat_z deg = (0, 0, sin (radians deg / 2), cos (radians deg / 2))"

definition from_euler_xyz :: "real \<Rightarrow> real \<Rightarrow> real \<Rightarrow> quat" where
  "from_euler_xyz roll_deg pitch_deg yaw_deg =
     quat_mul (quat_z yaw_deg) (quat_mul (quat_y pitch_deg) (quat_x roll_deg))"

text \<open>
  The composition that the specification names, intrinsic X-Y-Z: each later rotation is
  about the already rotated frame and multiplies from the right. This definition follows
  the specification's words and is used only to compare them with the code.
\<close>

definition spec_intrinsic_XYZ :: "real \<Rightarrow> real \<Rightarrow> real \<Rightarrow> quat" where
  "spec_intrinsic_XYZ roll_deg pitch_deg yaw_deg =
     quat_mul (quat_mul (quat_x roll_deg) (quat_y pitch_deg)) (quat_z yaw_deg)"

text \<open>
  \<^verbatim>\<open>
  for viewpoint in info["viewpoints"]:
      if episode in viewpoint["episodes"]:
          camera_reference_position = viewpoint["camera_position"] + np.array([-0.6, 0.0, 0.912])
          ...
          r = R.from_euler('xyz', [roll_deg, pitch_deg, yaw_deg], degrees=True)
          camera_reference_quaternion = r.as_quat()
          camera_pose = np.concatenate((camera_reference_position, camera_reference_quaternion))
          break
  ...
  camera_pose[:3] -= robot_disp
  \<close>
  When no viewpoint holds the episode, \<^verbatim>\<open>camera_pose\<close> was never assigned and the last
  line raises \<^verbatim>\<open>UnboundLocalError\<close>.
\<close>

definition find_viewpoint :: "viewpoint list \<Rightarrow> int \<Rightarrow> viewpoint option" where
  "find_viewpoint vps episode = find (\<lambda>viewpoint. episode \<in> set (episodes viewpoint)) vps"

definition camera_pose_of :: "dataset_info \<Rightarrow> int \<Rightarrow> vec3 \<Rightarrow> exn + pose" where
  "camera_pose_of info episode robot_disp =
     (case find_viewpoint (viewpoints info) episode of
        None \<Rightarrow> Inl UnboundLocalError
      | Some viewpoint \<Rightarrow>
          Inr (vsub (vadd (camera_position viewpoint) (- 0.6, 0.0, 0.912)) robot_disp,
               from_euler_xyz (roll viewpoint) (pitch viewpoint) (yaw viewpoint)))"

section \<open>The replay loop (target\_env.py, lines 69--166)\<close>

text \<open>The local variables of \<^verbatim>\<open>generate_image\<close> that the loop updates, and the simulator.\<close>

record ('w, 'img) replay_state =
  sim :: 'w
  target_pose_list :: "pose list"
  joint_angles_list :: "real list list"
  gripper_width_list :: "(real \<times> real) list"
  mask_frames :: "'img list"
  video_frames :: "'img list"
  success :: bool
  suggestion :: vec3

definition init_state :: "'w \<Rightarrow> ('w, 'img) replay_state" where
  "init_state w =
     \<lparr> sim = w, target_pose_list = [], joint_angles_list = [], gripper_width_list = [],
       mask_frames = [], video_frames = [], success = True, suggestion = zeros3 \<rparr>"

text \<open>
  \<^verbatim>\<open>target_pose[:3] -= robot_disp\<close> followed by \<^verbatim>\<open>reach_further\<close> with the dataset's
  \<^verbatim>\<open>extend_gripper\<close> distance (lines 87--89).
\<close>

definition remap_target :: "('w, 'img) wrapper \<Rightarrow> vec3 \<Rightarrow> pose \<Rightarrow> pose" where
  "remap_target cfg robot_disp p =
     reach_further cfg (vsub (fst p) robot_disp, snd p) (extend_gripper (camera_poses cfg))"

text \<open>
  One pass through the loop body for \<^verbatim>\<open>pose_index\<close>. The boolean of the result says
  whether the body left the loop with \<^verbatim>\<open>break\<close> (line 114). Reading
  \<^verbatim>\<open>gripper_array[pose_index]\<close> beyond the array raises \<^verbatim>\<open>IndexError\<close>.
\<close>

definition replay_step ::
  "('w, 'img) wrapper \<Rightarrow> real list \<Rightarrow> vec3 \<Rightarrow> bool \<Rightarrow> bool \<Rightarrow> nat \<Rightarrow> pose
     \<Rightarrow> ('w, 'img) replay_state \<Rightarrow> exn + (bool \<times> ('w, 'img) replay_state)" where
  "replay_step cfg gripper_array robot_disp unlimited dry_run pose_index p st =
     (if pose_index < length gripper_array then
        (case match_gripper (target_env cfg) (gripper_array ! pose_index) (sim st) of
           (attempt, gripper_dist, w1, calls) \<Rightarrow>
        (case drive_robot_to_target_pose (target_env cfg) (remap_target cfg robot_disp p) w1 of
           ((target_reached, target_reached_pose, err), w2) \<Rightarrow>
             if unlimited = False \<and> \<not> target_reached then
               Inr (True, st\<lparr> sim := w2, success := False,
                     suggestion := vsub (fst target_reached_pose)
                                        (fst (remap_target cfg robot_disp p)) \<rparr>)
             else
               (case get_observation_fast (target_env cfg) w2 of
                  ((target_robot_img, target_robot_seg_img), w3) \<Rightarrow>
                    Inr (False, st\<lparr> sim := w3,
                      target_pose_list := target_pose_list st @
                        [(vadd (fst (compute_eef_pose (target_env cfg) w2)) robot_disp,
                          snd (compute_eef_pose (target_env cfg) w2))],
                      gripper_width_list := gripper_width_list st @
                        [get_gripper_width_from_qpos (target_env cfg) w2],
                      joint_angles_list := joint_angles_list st @
                        [joint_angles (target_env cfg) w2],
                      mask_frames :=
                        (if dry_run then mask_frames st
                         else mask_frames st @ [target_robot_seg_img]),
                      video_frames :=
                        (if dry_run then video_frames st
                         else video_frames st @ [target_robot_img]) \<rparr>))))
      else Inl IndexError)"

fun replay_loop ::
  "('w, 'img) wrapper \<Rightarrow> real list \<Rightarrow> vec3 \<Rightarrow> bool \<Rightarrow> bool \<Rightarrow> nat \<Rightarrow> pose list
     \<Rightarrow> ('w, 'img) replay_state \<Rightarrow> exn + ('w, 'img) replay_state" where
  "replay_loop cfg gripper_array robot_disp unlimited dry_run pose_index [] st = Inr st"
| "replay_loop cfg gripper_array robot_disp unlimited dry_run pose_index (p # ps) st =
     (case replay_step cfg gripper_array robot_disp unlimited dry_run pose_index p st of
        Inl e \<Rightarrow> Inl e
      | Inr (broke, st') \<Rightarrow>
          if broke then Inr st'
          else replay_loop cfg gripper_array robot_disp unlimited dry_run (Suc pose_index) ps st')"

section \<open>The replay as a whole (target\_env.py, \<^verbatim>\<open>generate_image\<close>)\<close>

text \<open>
  The writes to the file system, in the order the code issues them:
  \<^item> \<open>Mkdir_mask_dir\<close>, \<open>Mkdir_video_dir\<close>: lines 81 and 82;
  \<^item> \<open>Imwrite_mask episode frames\<close>: \<^verbatim>\<open>iio.imwrite(mask_path, ...)\<close> of the stacked mask
    frames (lines 168, 170--175), to \<^verbatim>\<open><target>_replay_mask/<episode>.mp4\<close>;
  \<^item> \<open>Imwrite_video episode frames\<close>: lines 169, 176--181, to
    \<^verbatim>\<open><target>_replay_video/<episode>.mp4\<close>;
  \<^item> \<open>Makedirs_states\<close>: lines 201--208;
  \<^item> \<open>Savez episode poses joints widths offsets\<close>: the state archive of lines 209--225.
\<close>

datatype 'img fs_event =
    Mkdir_mask_dir
  | Mkdir_video_dir
  | Imwrite_mask int "'img list"
  | Imwrite_video int "'img list"
  | Makedirs_states
  | Savez int "pose list" "real list list" "(real \<times> real) list" vec3

type_synonym replay_result = "bool \<times> vec3 \<times> nat"

text \<open>
  Lines 167--243, after the loop. \<^verbatim>\<open>np.stack\<close> and \<^verbatim>\<open>np.vstack\<close> raise
  \<^verbatim>\<open>ValueError\<close> on an empty list. The result is the list of writes together with
  either the exception raised or the returned triple
  \<^verbatim>\<open>(success, suggestion, steps)\<close> and the simulator as the call leaves it.
\<close>

definition finish_replay ::
  "int \<Rightarrow> vec3 \<Rightarrow> bool \<Rightarrow> ('w, 'img) replay_state
     \<Rightarrow> 'img fs_event list \<times> (exn + replay_result \<times> 'w)" where
  "finish_replay episode robot_disp dry_run st =
     (if dry_run then
        ([], Inr ((success st, suggestion st, length (target_pose_list st)), sim st))
      else if mask_frames st = [] then ([], Inl ValueError)
      else if video_frames st = [] then ([], Inl ValueError)
      else if success st then
        (if target_pose_list st = [] then
           ([Imwrite_mask episode (mask_frames st), Imwrite_video episode (video_frames st),
             Makedirs_states], Inl ValueError)
         else if joint_angles_list st = [] then
           ([Imwrite_mask episode (mask_frames st), Imwrite_video episode (video_frames st),
             Makedirs_states], Inl ValueError)
         else
           ([Imwrite_mask episode (mask_frames st), Imwrite_video episode (video_frames st),
             Makedirs_states,
             Savez episode (target_pose_list st) (joint_angles_list st)
               (gripper_width_list st) robot_disp],
            Inr ((success st, suggestion st, length (target_pose_list st)), sim st)))
      else
        ([Imwrite_mask episode (mask_frames st), Imwrite_video episode (video_frames st)],
         Inr ((False, suggestion st, length (target_pose_list st)), sim st)))"

text \<open>Lines 61--65: the camera is placed before the loop.\<close>

definition setup_camera ::
  "('w, 'img) robot_camera \<Rightarrow> pose \<Rightarrow> real option \<Rightarrow> 'w \<Rightarrow> 'w" where
  "setup_camera env camera_pose data_fov w =
     update_camera env
       (case data_fov of
          None \<Rightarrow> set_camera_pose env (fst camera_pose) (snd camera_pose) w
        | Some f \<Rightarrow> set_camera_fov env f
                      (set_camera_pose env (fst camera_pose) (snd camera_pose) w))"

definition generate_image ::
  "('w, 'img) wrapper \<Rightarrow> vec3 option \<Rightarrow> bool \<Rightarrow> int \<Rightarrow> bool \<Rightarrow> 'w
     \<Rightarrow> 'img fs_event list \<times> (exn + replay_result \<times> 'w)" where
  "generate_image cfg robot_disp_arg unlimited episode dry_run w =
     (case source_robot_states cfg episode of
        None \<Rightarrow> ([], Inl FileNotFoundError)
      | Some data \<Rightarrow>
          (let robot_disp = (case robot_disp_arg of None \<Rightarrow> robot_pose cfg | Some d \<Rightarrow> d)
           in case camera_pose_of (camera_poses cfg) episode robot_disp of
                Inl e \<Rightarrow> ([], Inl e)
              | Inr camera_pose \<Rightarrow>
                  (let dirs = (if dry_run then [] else [Mkdir_mask_dir, Mkdir_video_dir])
                   in case replay_loop cfg (grip data) robot_disp unlimited dry_run 0 (pos data)
                             (init_state (setup_camera (target_env cfg) camera_pose (fov data) w))
                      of Inl e \<Rightarrow> (dirs, Inl e)
                       | Inr st \<Rightarrow>
                           (dirs @ fst (finish_replay episode robot_disp dry_run st),
                            snd (finish_replay episode robot_disp dry_run st)))))"

section \<open>The displacement search (generate\_target\_robot\_images\_new.py, lines 71--116)\<close>

definition candidates :: "vec3 \<Rightarrow> real \<Rightarrow> vec3 list" where
  "candidates displacement step =
     [displacement,
      vadd displacement (step, 0, 0),
      vsub displacement (step, 0, 0),
      vadd displacement (0, step, 0),
      vsub displacement (0, step, 0),
      vadd displacement (0, 0, step),
      vsub displacement (0, 0, step)]"

text \<open>
  The inner \<^verbatim>\<open>for cand in candidates\<close> loop. The scorer \<open>replay\<close> stands for the dry-run
  call of \<^verbatim>\<open>wrapper.generate_image\<close> on the simulator state \<open>s\<close>. The first component
  of the result lists, per finished call, what line 96 logs: the candidate, \<^verbatim>\<open>ok\<close> and
  \<^verbatim>\<open>steps\<close>. The second is the exception that ended the loop, or whether the loop left
  with \<^verbatim>\<open>break\<close>, then \<^verbatim>\<open>best_disp\<close>, \<^verbatim>\<open>best_steps\<close> and the simulator.
\<close>

type_synonym probe = "vec3 \<times> bool \<times> nat"

fun eval_candidates ::
  "(vec3 \<Rightarrow> 's \<Rightarrow> exn + replay_result \<times> 's) \<Rightarrow> vec3 list \<Rightarrow> int \<Rightarrow> vec3 \<Rightarrow> 's \<Rightarrow> probe list
     \<Rightarrow> probe list \<times> (exn + bool \<times> vec3 \<times> int \<times> 's)" where
  "eval_candidates replay [] best_steps best_disp s logged =
     (logged, Inr (False, best_disp, best_steps, s))"
| "eval_candidates replay (cand # cs) best_steps best_disp s logged =
     (case replay cand s of
        Inl e \<Rightarrow> (logged, Inl e)
      | Inr ((ok, sug, steps), s') \<Rightarrow>
          if ok then (logged @ [(cand, ok, steps)], Inr (True, cand, int steps, s'))
          else if int steps > best_steps then
            eval_candidates replay cs (int steps) cand s' (logged @ [(cand, ok, steps)])
          else
            eval_candidates replay cs best_steps best_disp s' (logged @ [(cand, ok, steps)]))"

text \<open>
  The outer \<^verbatim>\<open>for _ in range(max_iter)\<close> loop; the second argument counts the iterations
  left. The first component of the result has one entry per iteration begun: the
  displacement and the step it started from and the log of its inner loop.
\<close>

type_synonym round = "vec3 \<times> real \<times> probe list"

fun search_loop ::
  "(vec3 \<Rightarrow> 's \<Rightarrow> exn + replay_result \<times> 's) \<Rightarrow> nat \<Rightarrow> real \<Rightarrow> vec3 \<Rightarrow> 's \<Rightarrow> round list
     \<Rightarrow> round list \<times> (exn + vec3 \<times> 's)" where
  "search_loop replay 0 step displacement s rounds = (rounds, Inr (displacement, s))"
| "search_loop replay (Suc n) step displacement s rounds =
     (case eval_candidates replay (candidates displacement step) (- 1) displacement s [] of
        (logged, Inl e) \<Rightarrow> (rounds @ [(displacement, step, logged)], Inl e)
      | (logged, Inr (found, best_disp, best_steps, s')) \<Rightarrow>
          if found then (rounds @ [(displacement, step, logged)], Inr (best_disp, s'))
          else search_loop replay n (step * 0.5) best_disp s'
                 (rounds @ [(displacement, step, logged)]))"

definition search_displacement ::
  "(vec3 \<Rightarrow> 's \<Rightarrow> exn + replay_result \<times> 's) \<Rightarrow> vec3 \<Rightarrow> 's
     \<Rightarrow> round list \<times> (exn + vec3 \<times> 's)" where
  "search_displacement replay displacement s = search_loop replay 5 0.05 displacement s []"

section \<open>The worker (generate\_target\_robot\_images\_new.py, lines 18--134)\<close>

definition select_gripper :: "string \<Rightarrow> exn + string" where
  "select_gripper robot =
     (if robot = ''Sawyer'' then Inr ''RethinkGripper''
      else if robot = ''Jaco'' then Inr ''JacoThreeFingerGripper''
      else if robot \<in> {''IIWA'', ''UR5e'', ''Kinova3''} then Inr ''Robotiq85Gripper''
      else if robot = ''Panda'' then Inr ''PandaGripper''
      else Inl ValueError)"

text \<open>
  The body of the \<^verbatim>\<open>try\<close> block, lines 46--128. \<open>make_wrapper\<close> stands for the
  constructor \<^verbatim>\<open>TargetEnvWrapper(robot, gripper, robot_dataset, ...)\<close>: it raises or
  gives the wrapper and the simulator it starts from. \<open>offsets\<close> gives the stored
  displacement file of an episode when there is one.
\<close>

definition dry_replay ::
  "('w, 'img) wrapper \<Rightarrow> bool \<Rightarrow> int \<Rightarrow> vec3 \<Rightarrow> 'w \<Rightarrow> exn + replay_result \<times> 'w" where
  "dry_replay cfg unlimited episode cand w =
     snd (generate_image cfg (Some cand) unlimited episode True w)"

definition try_body ::
  "(string \<Rightarrow> string \<Rightarrow> exn + ('w, 'img) wrapper \<times> 'w) \<Rightarrow> (int \<Rightarrow> vec3 option)
     \<Rightarrow> string \<Rightarrow> string \<Rightarrow> int \<Rightarrow> bool \<Rightarrow> bool \<Rightarrow> exn + string \<times> int \<times> bool" where
  "try_body make_wrapper offsets robot gripper episode unlimited load_displacement =
     (case make_wrapper robot gripper of
        Inl e \<Rightarrow> Inl e
      | Inr (cfg, w0) \<Rightarrow>
          (case snd (search_displacement (dry_replay cfg unlimited episode)
                       (if load_displacement
                        then (case offsets episode of Some d \<Rightarrow> d | None \<Rightarrow> zeros3)
                        else robot_pose cfg) w0) of
             Inl e \<Rightarrow> Inl e
           | Inr (displacement, w1) \<Rightarrow>
               (case snd (generate_image cfg (Some displacement) unlimited episode False w1) of
                  Inl e \<Rightarrow> Inl e
                | Inr ((ok, sug, steps), w2) \<Rightarrow> Inr (robot, episode, ok))))"

text \<open>
  \<^verbatim>\<open>generate_one_episode\<close>: \<^verbatim>\<open>pick_best_gpu()\<close> (package \<^verbatim>\<open>core\<close>; \<open>Some e\<close> when it
  raises \<open>e\<close>) and \<^verbatim>\<open>select_gripper(robot)\<close> run on lines 40--44, before the
  \<^verbatim>\<open>try\<close> of line 45; the handler of lines 130--134 turns an exception of the body into
  the tuple \<^verbatim>\<open>(robot, episode, False)\<close>.
\<close>

definition generate_one_episode ::
  "exn option \<Rightarrow> (string \<Rightarrow> string \<Rightarrow> exn + ('w, 'img) wrapper \<times> 'w) \<Rightarrow> (int \<Rightarrow> vec3 option)
     \<Rightarrow> string \<Rightarrow> int \<Rightarrow> bool \<Rightarrow> bool \<Rightarrow> exn + string \<times> int \<times> bool" where
  "generate_one_episode pick_best_gpu make_wrapper offsets robot episode unlimited
       load_displacement =
     (case pick_best_gpu of
        Some e \<Rightarrow> Inl e
      | None \<Rightarrow>
          (case select_gripper robot of
             Inl e \<Rightarrow> Inl e
           | Inr gripper \<Rightarrow>
               (case try_body make_wrapper offsets robot gripper episode unlimited
                       load_displacement of
                  Inl exc \<Rightarrow> Inr (robot, episode, False)
                | Inr r \<Rightarrow> Inr r)))"

section \<open>The dispatcher's result loop (generate\_target\_robot\_images\_new.py, lines 191--199)\<close>

text \<open>
  There is one checkpoint file \<^verbatim>\<open><out_root>/<robot>/whitelist.json\<close> per robot, a JSON
  object from robot names to lists of episode indices. The files are a function from the
  robot that names the file to the object in it.
\<close>

type_synonym whitelists = "string \<Rightarrow> (string \<rightharpoonup> int list)"

text \<open>
  Modelled from the spec: \<^verbatim>\<open>locked_json\<close> of package \<^verbatim>\<open>core\<close> is not among the source
  files. By the specification it takes an exclusive lock on the file, re-reads the
  persisted object, lets the caller change it and writes it back atomically. The change
  the caller makes is line 199, \<^verbatim>\<open>wl.setdefault(robot, []).append(ep)\<close>.
\<close>

definition whitelist_append :: "whitelists \<Rightarrow> string \<Rightarrow> int \<Rightarrow> whitelists" where
  "whitelist_append files robot ep =
     files (robot := (files robot)
       (robot \<mapsto> (case files robot robot of None \<Rightarrow> [] | Some eps \<Rightarrow> eps) @ [ep]))"

text \<open>Line 171, \<^verbatim>\<open>set(wl.get(robot, []))\<close>: the completion set read back from the file.\<close>

definition done_eps :: "whitelists \<Rightarrow> string \<Rightarrow> int set" where
  "done_eps files robot = set (case files robot robot of None \<Rightarrow> [] | Some eps \<Rightarrow> eps)"

text \<open>
  The loop over \<^verbatim>\<open>as_completed(futures)\<close>: the list holds the futures in the order they
  complete, each with the tuple its worker returned or the exception it raised, which
  \<^verbatim>\<open>fut.result()\<close> raises again in the dispatcher. The result is the files as the loop
  leaves them and the exception that ended it, if any.
\<close>

fun collect_results ::
  "whitelists \<Rightarrow> (exn + string \<times> int \<times> bool) list \<Rightarrow> whitelists \<times> exn option" where
  "collect_results files [] = (files, None)"
| "collect_results files (Inl e # futs) = (files, Some e)"
| "collect_results files (Inr (robot, ep, ok) # futs) =
     (if \<not> ok then collect_results files futs
      else collect_results (whitelist_append files robot ep) futs)"

section \<open>Notions used to state the properties\<close>

text \<open>
  \<open>grown dry_run st st' k\<close>: from \<open>st\<close> to \<open>st'\<close> each of the three recorded sequences
  gained \<open>k\<close> entries, and the two frame buffers gained \<open>k\<close> frames, or none in a dry run.
\<close>

definition grown ::
  "bool \<Rightarrow> ('w, 'img) replay_state \<Rightarrow> ('w, 'img) replay_state \<Rightarrow> nat \<Rightarrow> bool" where
  "grown dry st st' k \<longleftrightarrow>
     length (target_pose_list st') = length (target_pose_list st) + k
     \<and> length (joint_angles_list st') = length (joint_angles_list st) + k
     \<and> length (gripper_width_list st') = length (gripper_width_list st) + k
     \<and> (if dry then mask_frames st' = mask_frames st \<and> video_frames st' = video_frames st
         else length (mask_frames st') = length (mask_frames st) + k
            \<and> length (video_frames st') = length (video_frames st) + k)"



text \<open>
  \<open>first_best logged c\<close>: among the probes \<open>logged\<close>, \<open>c\<close> is the candidate of the
  earliest probe with the highest step count: every probe before it has strictly fewer
  steps, every probe after it has at most as many.
\<close>

definition first_best :: "probe list \<Rightarrow> vec3 \<Rightarrow> bool" where
  "first_best logged c \<longleftrightarrow>
     (\<exists>before p after. logged = before @ p # after \<and> c = fst p
        \<and> (\<forall>q \<in> set before. snd (snd q) < snd (snd p))
        \<and> (\<forall>q \<in> set after. snd (snd q) \<le> snd (snd p)))"

section \<open>Concrete simulators for the examples\<close>

text \<open>
  A simulator whose gripper never moves: the state is the gripper width, every pose is
  reported as reached.
\<close>

definition stuck_env :: "(real, nat) robot_camera" where
  "stuck_env =
     \<lparr> set_camera_pose = (\<lambda>p q w. w), set_camera_fov = (\<lambda>f w. w), update_camera = (\<lambda>w. w),
       get_gripper_width_from_qpos = (\<lambda>w. (w, w)),
       open_close_gripper = (\<lambda>b w. w),
       drive_robot_to_target_pose = (\<lambda>p w. ((True, p, 0), w)),
       compute_eef_pose = (\<lambda>w. ((0, 0, 0), (0, 0, 0, 1))),
       joint_angles = (\<lambda>w. []),
       get_observation_fast = (\<lambda>w. ((0, 0), w)) \<rparr>"

text \<open>
  A simulator with a reach limit: the state is the gripper width and the end-effector
  pose; a target is reached exactly when its x coordinate is at most 1, otherwise the arm
  stops at x = 1. Every rendering is the frame pair (7, 1).
\<close>

type_synonym toy = "real \<times> pose"

definition toy_env :: "(toy, nat) robot_camera" where
  "toy_env =
     \<lparr> set_camera_pose = (\<lambda>p q w. w), set_camera_fov = (\<lambda>f w. w), update_camera = (\<lambda>w. w),
       get_gripper_width_from_qpos = (\<lambda>w. (fst w, fst w)),
       open_close_gripper = (\<lambda>b w. (if b then fst w + 0.5 else fst w - 0.5, snd w)),
       drive_robot_to_target_pose =
         (\<lambda>p w. if fst (fst p) \<le> 1 then ((True, p, 0), (fst w, p))
                 else ((False, ((1, snd (fst p)), snd p), fst (fst p) - 1),
                       (fst w, ((1, snd (fst p)), snd p)))),
       compute_eef_pose = (\<lambda>w. snd w),
       joint_angles = (\<lambda>w. [fst (fst (snd w))]),
       get_observation_fast = (\<lambda>w. ((7, 1), w)) \<rparr>"

definition q0 :: quat where
  "q0 = (0, 0, 0, 1)"

definition toy_states :: "int \<Rightarrow> episode_data option" where
  "toy_states episode =
     (if episode = 0 then
        Some \<lparr> pos = [((0.5, 0, 0), q0), ((2, 0, 0), q0)], grip = [0, 0], fov = None \<rparr>
      else if episode = 1 then
        Some \<lparr> pos = [((2, 0, 0), q0)], grip = [0], fov = None \<rparr>
      else if episode = 2 then
        Some \<lparr> pos = [((0.5, 0, 0), q0), ((1.04, 0, 0), q0)], grip = [0, 0], fov = None \<rparr>
      else if episode = 3 then
        Some \<lparr> pos = [((1.02, 0, 0), q0), ((1.06, 0, 0), q0)], grip = [0, 0], fov = None \<rparr>
      else None)"

definition toy_viewpoint :: viewpoint where
  "toy_viewpoint =
     \<lparr> camera_position = (1, 2, 3), roll = 90, pitch = 90, yaw = 0, camera_fov = 45,
       episodes = [0, 1, 2, 3] \<rparr>"

definition toy_cfg :: "(toy, nat) wrapper" where
  "toy_cfg =
     \<lparr> target_env = toy_env, reach_further = (\<lambda>p distance. p),
       source_robot_states = toy_states,
       camera_poses = \<lparr> viewpoints = [toy_viewpoint], extend_gripper = 0 \<rparr>,
       robot_pose = zeros3 \<rparr>"

definition toy0 :: toy where
  "toy0 = (0, (0, 0, 0), q0)"

text \<open>
  A wrapper constructor that always gives the simulator above, a directory without stored
  offset files, and checkpoint files that are all empty.
\<close>

definition toy_make_wrapper :: "string \<Rightarrow> string \<Rightarrow> exn + (toy, nat) wrapper \<times> toy" where
  "toy_make_wrapper robot gripper = Inr (toy_cfg, toy0)"

definition no_offsets :: "int \<Rightarrow> vec3 option" where
  "no_offsets episode = None"

definition no_whitelists :: whitelists where
  "no_whitelists robot = Map.empty"

section \<open>Gripper matching is bounded\<close>

lemma gripper_loop_open:
  "d < g - 0.1 \<Longrightarrow> a < 10 \<Longrightarrow>
     gripper_loop env g a d w calls =
       gripper_loop env g (a + 1)
         (snd (get_gripper_width_from_qpos env (open_close_gripper env True w)))
         (open_close_gripper env True w) (calls @ [(d, True)])"
  by (subst gripper_loop.simps) simp

lemma gripper_loop_close:
  "d > g + 0.1 \<Longrightarrow> a < 10 \<Longrightarrow>
     gripper_loop env g a d w calls =
       gripper_loop env g (a + 1)
         (snd (get_gripper_width_from_qpos env (open_close_gripper env False w)))
         (open_close_gripper env False w) (calls @ [(d, False)])"
  by (subst gripper_loop.simps) simp

lemma gripper_loop_stop:
  "\<not> a < 10 \<or> (g - 0.1 \<le> d \<and> d \<le> g + 0.1) \<Longrightarrow>
     gripper_loop env g a d w calls = (a, d, w, calls)"
  by (subst gripper_loop.simps) auto

lemma gripper_loop_inv:
  "gripper_loop env g a d w calls = (a', d', w', calls') \<Longrightarrow>
     a \<le> a' \<and> (a \<le> 10 \<longrightarrow> a' \<le> 10)
     \<and> (\<exists>new. calls' = calls @ new \<and> length new = a' - a
            \<and> (\<forall>(m, c) \<in> set new. (m < g - 0.1 \<or> m > g + 0.1) \<and> (c \<longleftrightarrow> m < g - 0.1)))
     \<and> (10 \<le> a' \<or> (g - 0.1 \<le> d' \<and> d' \<le> g + 0.1))"
proof (induction env g a d w calls rule: gripper_loop.induct)
  case (1 env g attempt gripper_dist w calls)
  show ?case
  proof (cases "(gripper_dist < g - 0.1 \<or> gripper_dist > g + 0.1) \<and> attempt < 10")
    case False
    then have "gripper_loop env g attempt gripper_dist w calls = (attempt, gripper_dist, w, calls)"
      by (intro gripper_loop_stop) auto
    with "1.prems" have "a' = attempt" "d' = gripper_dist" "calls' = calls" by simp_all
    with False show ?thesis by auto
  next
    case True
    show ?thesis
    proof (cases "gripper_dist < g - 0.1")
      case lo: True
      from "1.prems" True lo
      have r: "gripper_loop env g (attempt + 1)
                 (snd (get_gripper_width_from_qpos env (open_close_gripper env True w)))
                 (open_close_gripper env True w)
                 (calls @ [(gripper_dist, True)]) = (a', d', w', calls')"
        by (simp add: gripper_loop_open)
      from "1.IH"(1) [OF True lo r] obtain new where
        n: "attempt + 1 \<le> a'" "attempt + 1 \<le> 10 \<longrightarrow> a' \<le> 10"
           "calls' = (calls @ [(gripper_dist, True)]) @ new" "length new = a' - (attempt + 1)"
           "\<forall>(m, c) \<in> set new. (m < g - 0.1 \<or> m > g + 0.1) \<and> (c \<longleftrightarrow> m < g - 0.1)"
           "10 \<le> a' \<or> (g - 0.1 \<le> d' \<and> d' \<le> g + 0.1)"
        by blast
      have "calls' = calls @ ((gripper_dist, True) # new)" using n(3) by simp
      moreover have "length ((gripper_dist, True) # new) = a' - attempt" using n(1,4) by simp
      moreover have "\<forall>(m, c) \<in> set ((gripper_dist, True) # new).
                       (m < g - 0.1 \<or> m > g + 0.1) \<and> (c \<longleftrightarrow> m < g - 0.1)"
        using n(5) lo by simp
      ultimately have "\<exists>new. calls' = calls @ new \<and> length new = a' - attempt
            \<and> (\<forall>(m, c) \<in> set new. (m < g - 0.1 \<or> m > g + 0.1) \<and> (c \<longleftrightarrow> m < g - 0.1))"
        by blast
      moreover have "attempt \<le> a'" "attempt \<le> 10 \<longrightarrow> a' \<le> 10" using n(1,2) True by auto
      ultimately show ?thesis using n(6) by blast
    next
      case nlo: False
      with True have hi: "gripper_dist > g + 0.1" by simp
      from "1.prems" True hi
      have r: "gripper_loop env g (attempt + 1)
                 (snd (get_gripper_width_from_qpos env (open_close_gripper env False w)))
                 (open_close_gripper env False w)
                 (calls @ [(gripper_dist, False)]) = (a', d', w', calls')"
        by (simp add: gripper_loop_close)
      from "1.IH"(2) [OF True nlo hi r] obtain new where
        n: "attempt + 1 \<le> a'" "attempt + 1 \<le> 10 \<longrightarrow> a' \<le> 10"
           "calls' = (calls @ [(gripper_dist, False)]) @ new" "length new = a' - (attempt + 1)"
           "\<forall>(m, c) \<in> set new. (m < g - 0.1 \<or> m > g + 0.1) \<and> (c \<longleftrightarrow> m < g - 0.1)"
           "10 \<le> a' \<or> (g - 0.1 \<le> d' \<and> d' \<le> g + 0.1)"
        by blast
      have "calls' = calls @ ((gripper_dist, False) # new)" using n(3) by simp
      moreover have "length ((gripper_dist, False) # new) = a' - attempt" using n(1,4) by simp
      moreover have "\<forall>(m, c) \<in> set ((gripper_dist, False) # new).
                       (m < g - 0.1 \<or> m > g + 0.1) \<and> (c \<longleftrightarrow> m < g - 0.1)"
        using n(5) nlo hi by simp
      ultimately have "\<exists>new. calls' = calls @ new \<and> length new = a' - attempt
            \<and> (\<forall>(m, c) \<in> set new. (m < g - 0.1 \<or> m > g + 0.1) \<and> (c \<longleftrightarrow> m < g - 0.1))"
        by blast
      moreover have "attempt \<le> a'" "attempt \<le> 10 \<longrightarrow> a' \<le> 10" using n(1,2) True by auto
      ultimately show ?thesis using n(6) by blast
    qed
  qed
qed

lemma out_of_tolerance:
  fixes m g :: real
  assumes "m < g - 0.1 \<or> m > g + 0.1" and "c \<longleftrightarrow> m < g - 0.1"
  shows "\<bar>m - g\<bar> > 0.1 \<and> (c \<longleftrightarrow> m < g)"
  using assms by argo

lemma within_tolerance:
  fixes d g :: real
  assumes "g - 0.1 \<le> d" and "d \<le> g + 0.1"
  shows "\<bar>d - g\<bar> \<le> 0.1"
  using assms by argo

text \<open>
  Claim C6. In every step of a replay the gripper-matching loop makes at most 10 attempts,
  each attempt issues exactly one \<^verbatim>\<open>open_close_gripper\<close> call, every call is issued
  on a measured width that differs from the recorded width by more than 0.1 (opening when
  the measured width is below the target, closing when it is above), and the loop ends,
  after 10 attempts at the latest, whether or not the width is within the tolerance.
\<close>

theorem gripper_matching_bound:
  assumes "match_gripper env g w = (attempt, d, w', calls)"
  shows "attempt \<le> 10 \<and> length calls = attempt
    \<and> (\<forall>(m, c) \<in> set calls. \<bar>m - g\<bar> > 0.1 \<and> (c \<longleftrightarrow> m < g))
    \<and> (attempt = 10 \<or> \<bar>d - g\<bar> \<le> 0.1)"
proof -
  note H = gripper_loop_inv [OF assms [unfolded match_gripper_def]]
  from H have a: "attempt \<le> 10" by simp
  from H obtain new where
    n: "calls = [] @ new" "length new = attempt - 0"
       "\<forall>(m, c) \<in> set new. (m < g - 0.1 \<or> m > g + 0.1) \<and> (c \<longleftrightarrow> m < g - 0.1)"
    by blast
  from H have e: "10 \<le> attempt \<or> (g - 0.1 \<le> d \<and> d \<le> g + 0.1)" by blast
  have "\<forall>(m, c) \<in> set calls. \<bar>m - g\<bar> > 0.1 \<and> (c \<longleftrightarrow> m < g)"
  proof (clarify, rule out_of_tolerance)
    fix m c assume "(m, c) \<in> set calls"
    with n(1,3) show "m < g - 0.1 \<or> m > g + 0.1" and "c \<longleftrightarrow> m < g - 0.1" by auto
  qed
  moreover have "attempt = 10 \<or> \<bar>d - g\<bar> \<le> 0.1"
    using a e within_tolerance [of g d] by linarith
  moreover have "length calls = attempt" using n(1,2) by simp
  ultimately show ?thesis using a by blast
qed

lemma stuck_run: "match_gripper stuck_env 1 0 = (10, 0, 0, replicate 10 (0, True))"
  by (simp add: match_gripper_def stuck_env_def gripper_loop_open gripper_loop_stop numeral_eq_Suc)

theorem gripper_matching_bound_witness:
  "match_gripper stuck_env 1 0 = (10, 0, 0, replicate 10 (0, True))
   \<and> (10::nat) \<le> 10 \<and> length (replicate 10 (0::real, True)) = 10
   \<and> \<bar>(0::real) - 1\<bar> > 0.1 \<and> (True \<longleftrightarrow> (0::real) < 1)
   \<and> ((10::nat) = 10 \<or> \<bar>(0::real) - 1\<bar> \<le> 0.1)"
  using gripper_matching_bound [OF stuck_run] stuck_run by simp

section \<open>The replay loop: what one step and the whole loop change\<close>

lemma replay_step_cases:
  assumes "replay_step cfg ga disp unl dry i p st = Inr (broke, st')"
  shows "(broke \<and> \<not> unl \<and> success st' = False
            \<and> target_pose_list st' = target_pose_list st
            \<and> joint_angles_list st' = joint_angles_list st
            \<and> gripper_width_list st' = gripper_width_list st
            \<and> mask_frames st' = mask_frames st \<and> video_frames st' = video_frames st)
       \<or> (\<not> broke \<and> success st' = success st \<and> suggestion st' = suggestion st
            \<and> length (target_pose_list st') = Suc (length (target_pose_list st))
            \<and> length (joint_angles_list st') = Suc (length (joint_angles_list st))
            \<and> length (gripper_width_list st') = Suc (length (gripper_width_list st))
            \<and> (if dry then mask_frames st' = mask_frames st \<and> video_frames st' = video_frames st
                else length (mask_frames st') = Suc (length (mask_frames st))
                   \<and> length (video_frames st') = Suc (length (video_frames st))))"
  using assms unfolding replay_step_def
  by (auto split: if_splits prod.splits)

lemma replay_loop_inv:
  "replay_loop cfg ga disp unl dry i ps st = Inr st' \<Longrightarrow>
     \<exists>k. grown dry st st' k
       \<and> ((success st' = success st \<and> suggestion st' = suggestion st \<and> k = length ps)
           \<or> (\<not> unl \<and> \<not> success st' \<and> k < length ps))"
proof (induction ps arbitrary: i st)
  case Nil
  then show ?case by (auto simp: grown_def)
next
  case (Cons p ps)
  from Cons.prems obtain broke st1 where
    s: "replay_step cfg ga disp unl dry i p st = Inr (broke, st1)"
    by (auto split: sum.splits)
  show ?case
  proof (cases broke)
    case True
    with Cons.prems s have "st' = st1" by simp
    with replay_step_cases [OF s] True show ?thesis
      by (intro exI [of _ 0]) (auto simp: grown_def)
  next
    case False
    with Cons.prems s have r: "replay_loop cfg ga disp unl dry (Suc i) ps st1 = Inr st'" by simp
    from Cons.IH [OF r] obtain k where
      k: "grown dry st1 st' k"
         "(success st' = success st1 \<and> suggestion st' = suggestion st1 \<and> k = length ps)
           \<or> (\<not> unl \<and> \<not> success st' \<and> k < length ps)"
      by blast
    from replay_step_cases [OF s] False have
      g1: "grown dry st st1 1" and e1: "success st1 = success st" "suggestion st1 = suggestion st"
      by (auto simp: grown_def split: if_splits)
    from g1 k(1) have "grown dry st st' (Suc k)" by (auto simp: grown_def split: if_splits)
    with k(2) e1 show ?thesis by (intro exI [of _ "Suc k"]) auto
  qed
qed

section \<open>Runs of the concrete simulators\<close>

lemmas toy_simps = toy_env_def toy_cfg_def toy_states_def toy_viewpoint_def toy0_def q0_def
  zeros3_def generate_image_def camera_pose_of_def find_viewpoint_def setup_camera_def
  init_state_def replay_step_def remap_target_def match_gripper_def gripper_loop_stop
  finish_replay_def Let_def

lemma toy_search_found:
  "search_displacement (dry_replay toy_cfg False 2) zeros3 toy0 =
     ([((0, 0, 0), 0.05, [((0, 0, 0), False, 1), ((0.05, 0, 0), True, 2)])],
      Inr ((0.05, 0, 0), (0, (0.99, 0, 0), q0)))"
  by (simp add: search_displacement_def dry_replay_def candidates_def eval_nat_numeral toy_simps)

lemma toy_search_two_rounds:
  "search_displacement (dry_replay toy_cfg False 3) zeros3 toy0 =
     ([((0, 0, 0), 0.05,
        [((0, 0, 0), False, 0), ((0.05, 0, 0), False, 1), ((- 0.05, 0, 0), False, 0),
         ((0, 0.05, 0), False, 0), ((0, - 0.05, 0), False, 0),
         ((0, 0, 0.05), False, 0), ((0, 0, - 0.05), False, 0)]),
       ((0.05, 0, 0), 0.025, [((0.05, 0, 0), False, 1), ((0.075, 0, 0), True, 2)])],
      Inr ((0.075, 0, 0), (0, (0.985, 0, 0), q0)))"
  by (simp add: search_displacement_def dry_replay_def candidates_def eval_nat_numeral toy_simps)

lemma toy_commit_fails_at_step1:
  "generate_image toy_cfg (Some zeros3) False 0 False toy0 =
     ([Mkdir_mask_dir, Mkdir_video_dir, Imwrite_mask 0 [1], Imwrite_video 0 [7]],
      Inr ((False, (- 1, 0, 0), 1), (0, (1, 0, 0), q0)))"
  by (simp add: toy_simps)

lemma toy_dry_fails_at_step1:
  "generate_image toy_cfg (Some zeros3) False 0 True toy0 =
     ([], Inr ((False, (- 1, 0, 0), 1), (0, (1, 0, 0), q0)))"
  by (simp add: toy_simps)


lemma toy_unlimited_commit:
  "generate_image toy_cfg (Some zeros3) True 0 False toy0 =
     ([Mkdir_mask_dir, Mkdir_video_dir, Imwrite_mask 0 [1, 1], Imwrite_video 0 [7, 7],
       Makedirs_states,
       Savez 0 [((0.5, 0, 0), q0), ((1, 0, 0), q0)] [[0.5], [1]] [(0, 0), (0, 0)] (0, 0, 0)],
      Inr ((True, (0, 0, 0), 2), (0, (1, 0, 0), q0)))"
  by (simp add: toy_simps)

lemma toy_commit_fails_at_step0:
  "generate_image toy_cfg (Some zeros3) False 1 False toy0 =
     ([Mkdir_mask_dir, Mkdir_video_dir], Inl ValueError)"
  by (simp add: toy_simps)

lemma toy_dry_fails_at_step0:
  "generate_image toy_cfg (Some zeros3) False 1 True toy0 =
     ([], Inr ((False, (- 1, 0, 0), 0), (0, (1, 0, 0), q0)))"
  by (simp add: toy_simps)

lemma toy_drive_step0:
  "drive_robot_to_target_pose (target_env toy_cfg)
       (remap_target toy_cfg zeros3 ((2, 0, 0), q0)) toy0 =
     ((False, ((1, 0, 0), q0), 1), (0, (1, 0, 0), q0))"
  by (simp add: toy_simps)

section \<open>Dry runs and committing runs\<close>

lemma replay_step_raises:
  "(\<exists>r. replay_step cfg ga disp unl dry i p st = Inr r) \<longleftrightarrow> i < length ga"
  unfolding replay_step_def by (auto split: prod.splits)

lemma replay_loop_returns:
  "i + length ps \<le> length ga \<Longrightarrow> \<exists>st'. replay_loop cfg ga disp unl dry i ps st = Inr st'"
proof (induction ps arbitrary: i st)
  case Nil
  then show ?case by simp
next
  case (Cons p ps)
  then have "i < length ga" by simp
  then obtain broke st1 where s: "replay_step cfg ga disp unl dry i p st = Inr (broke, st1)"
    using replay_step_raises [of cfg ga disp unl dry i p st] by auto
  from Cons.prems have "Suc i + length ps \<le> length ga" by simp
  from Cons.IH [OF this, of st1] s show ?case by (cases broke) auto
qed






section \<open>What a replay returns and writes\<close>

lemma generate_image_returns:
  fixes cfg :: "('w, 'img) wrapper"
  assumes "generate_image cfg robot_disp_arg unlimited episode dry_run w = (evs, Inr (r, w'))"
  obtains data disp cp st where
    "source_robot_states cfg episode = Some data"
    "disp = (case robot_disp_arg of None \<Rightarrow> robot_pose cfg | Some d \<Rightarrow> d)"
    "camera_pose_of (camera_poses cfg) episode disp = Inr cp"
    "replay_loop cfg (grip data) disp unlimited dry_run 0 (pos data)
       (init_state (setup_camera (target_env cfg) cp (fov data) w)) = Inr st"
    "evs = (if dry_run then [] else [Mkdir_mask_dir, Mkdir_video_dir])
             @ fst (finish_replay episode disp dry_run st)"
    "snd (finish_replay episode disp dry_run st) = Inr (r, w')"
  using assms unfolding generate_image_def
  by (auto simp: Let_def split: option.splits sum.splits)

text \<open>
  Claim C2 does not hold as stated: the two videos are encoded under
  \<^verbatim>\<open>if not dry_run\<close> alone (line 167), before the test of \<^verbatim>\<open>success\<close> (line 183).
  Episode 0 of the example is reached at its first pose and not at its second; the
  committing replay returns \<^verbatim>\<open>success=False\<close> after writing a mask video and an RGB video
  of one frame each.
\<close>

theorem failed_commit_counterexample:
  "generate_image toy_cfg (Some zeros3) False 0 False toy0 =
     ([Mkdir_mask_dir, Mkdir_video_dir, Imwrite_mask 0 [1], Imwrite_video 0 [7]],
      Inr ((False, (- 1, 0, 0), 1), (0, (1, 0, 0), q0)))"
  by (rule toy_commit_fails_at_step1)

text \<open>
  Claim C2, amended. A committing replay that returns \<^verbatim>\<open>success=False\<close> has created the
  two output directories and encoded the mask video and the RGB video, each with one frame
  per completed step, and nothing else: no state directory, no state archive. It has
  completed at least one step.
\<close>

theorem failed_commit_leaves_videos:
  fixes cfg :: "('w, 'img) wrapper"
  assumes "generate_image cfg robot_disp_arg unlimited episode False w
             = (evs, Inr ((False, sug, k), w'))"
  shows "\<exists>ms vs. evs = [Mkdir_mask_dir, Mkdir_video_dir,
                         Imwrite_mask episode ms, Imwrite_video episode vs]
           \<and> length ms = k \<and> length vs = k \<and> 0 < k"
proof (rule generate_image_returns [OF assms])
  fix data disp cp and st :: "('w, 'img) replay_state"
  assume loop: "replay_loop cfg (grip data) disp unlimited False 0 (pos data)
       (init_state (setup_camera (target_env cfg) cp (fov data) w)) = Inr st"
    and evs: "evs = (if False then [] else [Mkdir_mask_dir, Mkdir_video_dir])
                      @ fst (finish_replay episode disp False st)"
    and fin: "snd (finish_replay episode disp False st) = Inr ((False, sug, k), w')"
  from replay_loop_inv [OF loop] obtain n where
    "grown False (init_state (setup_camera (target_env cfg) cp (fov data) w)) st n" by blast
  then have len: "length (mask_frames st) = length (target_pose_list st)"
      "length (video_frames st) = length (target_pose_list st)"
    by (simp_all add: grown_def init_state_def)
  from fin have ne: "mask_frames st \<noteq> []" "video_frames st \<noteq> []" and ns: "\<not> success st"
    and k: "k = length (target_pose_list st)"
    unfolding finish_replay_def by (auto split: if_splits)
  from ne ns have "fst (finish_replay episode disp False st)
       = [Imwrite_mask episode (mask_frames st), Imwrite_video episode (video_frames st)]"
    unfolding finish_replay_def by simp
  with evs len k ne show ?thesis by auto
qed

theorem failed_commit_leaves_videos_witness:
  "generate_image toy_cfg (Some zeros3) False 0 False toy0 =
     ([Mkdir_mask_dir, Mkdir_video_dir, Imwrite_mask 0 [1], Imwrite_video 0 [7]],
      Inr ((False, (- 1, 0, 0), 1), (0, (1, 0, 0), q0)))
   \<and> (\<exists>ms vs. [Mkdir_mask_dir, Mkdir_video_dir, Imwrite_mask 0 [1], Imwrite_video 0 [7 :: nat]]
          = [Mkdir_mask_dir, Mkdir_video_dir, Imwrite_mask 0 ms, Imwrite_video 0 vs]
        \<and> length ms = 1 \<and> length vs = 1 \<and> (0 :: nat) < 1)"
  using toy_commit_fails_at_step1 failed_commit_leaves_videos [OF toy_commit_fails_at_step1]
  by (intro conjI)

text \<open>
  Claim C10. With \<^verbatim>\<open>unlimited=True\<close> the replay never takes the failure branch: when the
  episode archive exists, a viewpoint holds the episode, every pose has a recorded gripper
  width and (for a committing replay) the episode has at least one pose, the call returns
  \<^verbatim>\<open>success=True\<close>, the zero suggestion and \<^verbatim>\<open>steps\<close> equal to the number of poses,
  whatever the motion controller reports.
\<close>

theorem unlimited_replay_always_succeeds:
  fixes cfg :: "('w, 'img) wrapper"
  assumes data: "source_robot_states cfg episode = Some data"
      and view: "find_viewpoint (viewpoints (camera_poses cfg)) episode = Some v"
      and lens: "length (pos data) \<le> length (grip data)"
      and some: "dry_run \<or> pos data \<noteq> []"
  shows "\<exists>evs w'. generate_image cfg robot_disp_arg True episode dry_run w
           = (evs, Inr ((True, zeros3, length (pos data)), w'))"
proof -
  define disp where "disp = (case robot_disp_arg of None \<Rightarrow> robot_pose cfg | Some d \<Rightarrow> d)"
  from view obtain cp where cp: "camera_pose_of (camera_poses cfg) episode disp = Inr cp"
    by (simp add: camera_pose_of_def)
  define st0 :: "('w, 'img) replay_state"
    where "st0 = init_state (setup_camera (target_env cfg) cp (fov data) w)"
  from lens obtain st where
    loop: "replay_loop cfg (grip data) disp True dry_run 0 (pos data) st0 = Inr st"
    using replay_loop_returns [of 0 "pos data" "grip data" cfg disp True dry_run st0] by auto
  from replay_loop_inv [OF loop] have
    g: "grown dry_run st0 st (length (pos data))" and
    s: "success st = success st0" "suggestion st = suggestion st0"
    by auto
  from s have s': "success st" "suggestion st = zeros3" by (simp_all add: st0_def init_state_def)
  from g have n: "length (target_pose_list st) = length (pos data)"
    "length (joint_angles_list st) = length (pos data)"
    "\<not> dry_run \<Longrightarrow> length (mask_frames st) = length (pos data)"
    "\<not> dry_run \<Longrightarrow> length (video_frames st) = length (pos data)"
    by (simp_all add: grown_def st0_def init_state_def)
  have "snd (finish_replay episode disp dry_run st)
          = Inr ((True, zeros3, length (pos data)), sim st)"
  proof (cases dry_run)
    case True
    with s' n show ?thesis by (simp add: finish_replay_def)
  next
    case False
    with some have "pos data \<noteq> []" by simp
    with n False have "mask_frames st \<noteq> []" "video_frames st \<noteq> []"
      "target_pose_list st \<noteq> []" "joint_angles_list st \<noteq> []" by auto
    with s' n False show ?thesis by (simp add: finish_replay_def)
  qed
  with data cp loop show ?thesis
    unfolding generate_image_def disp_def [symmetric] st0_def [symmetric]
    by (simp add: Let_def disp_def [symmetric] st0_def [symmetric])
qed

theorem unlimited_replay_always_succeeds_witness:
  "source_robot_states toy_cfg 0
     = Some \<lparr> pos = [((0.5, 0, 0), q0), ((2, 0, 0), q0)], grip = [0, 0], fov = None \<rparr>
   \<and> find_viewpoint (viewpoints (camera_poses toy_cfg)) 0 = Some toy_viewpoint
   \<and> (\<exists>evs w'. generate_image toy_cfg (Some zeros3) True 0 False toy0
         = (evs, Inr ((True, zeros3,
              length (pos \<lparr> pos = [((0.5, 0, 0), q0), ((2, 0, 0), q0)], grip = [0, 0],
                             fov = None \<rparr>)), w')))
   \<and> generate_image toy_cfg (Some zeros3) True 0 False toy0 =
     ([Mkdir_mask_dir, Mkdir_video_dir, Imwrite_mask 0 [1, 1], Imwrite_video 0 [7, 7],
       Makedirs_states,
       Savez 0 [((0.5, 0, 0), q0), ((1, 0, 0), q0)] [[0.5], [1]] [(0, 0), (0, 0)] (0, 0, 0)],
      Inr ((True, (0, 0, 0), 2), (0, (1, 0, 0), q0)))"
proof -
  have d: "source_robot_states toy_cfg 0
     = Some \<lparr> pos = [((0.5, 0, 0), q0), ((2, 0, 0), q0)], grip = [0, 0], fov = None \<rparr>"
    by (simp add: toy_cfg_def toy_states_def)
  have v: "find_viewpoint (viewpoints (camera_poses toy_cfg)) 0 = Some toy_viewpoint"
    by (simp add: toy_cfg_def find_viewpoint_def toy_viewpoint_def)
  have l: "length (pos \<lparr> pos = [((0.5, 0, 0), q0), ((2 :: real, 0 :: real, 0 :: real), q0)],
              grip = [0, 0], fov = None \<rparr>)
        \<le> length (grip \<lparr> pos = [((0.5, 0, 0), q0), ((2, 0, 0), q0)], grip = [0, 0],
              fov = None \<rparr>)"
    by simp
  have n: "False \<or> pos \<lparr> pos = [((0.5, 0, 0), q0), ((2 :: real, 0 :: real, 0 :: real), q0)],
              grip = [0, 0], fov = None \<rparr> \<noteq> []"
    by simp
  note T = unlimited_replay_always_succeeds [OF d v l n, of "Some zeros3" toy0]
  from d v T toy_unlimited_commit show ?thesis by (intro conjI)
qed

section \<open>Early abort\<close>

text \<open>
  Where the first \<open>k\<close> poses were recorded and the controller reports pose \<open>k\<close> as not
  reached, a replay with \<^verbatim>\<open>unlimited=False\<close> returns \<^verbatim>\<open>success=False\<close>, the residual of
  that pose and \<open>k\<close> steps, provided it is a dry run or \<open>k\<close> is at least 1.
\<close>

lemma replay_loop_append:
  "success st \<Longrightarrow>
     replay_loop cfg ga disp unl dry i (ps1 @ ps2) st =
       (case replay_loop cfg ga disp unl dry i ps1 st of
          Inl e \<Rightarrow> Inl e
        | Inr st1 \<Rightarrow>
            if success st1 then replay_loop cfg ga disp unl dry (i + length ps1) ps2 st1
            else Inr st1)"
proof (induction ps1 arbitrary: i st)
  case Nil
  then show ?case by simp
next
  case (Cons p ps1)
  show ?case
  proof (cases "replay_step cfg ga disp unl dry i p st")
    case (Inl e)
    then show ?thesis by simp
  next
    case (Inr r)
    obtain broke st1 where r: "r = (broke, st1)" by (cases r)
    from replay_step_cases [OF Inr [unfolded r]] Cons.prems
    have c: "(broke \<and> \<not> success st1) \<or> (\<not> broke \<and> success st1)" by auto
    show ?thesis
    proof (cases broke)
      case True
      with c Inr r show ?thesis by simp
    next
      case False
      with c have "success st1" by simp
      have idx: "Suc i + length ps1 = i + length (p # ps1)" by simp
      from Cons.IH [OF \<open>success st1\<close>, of "Suc i", unfolded idx]
      have "replay_loop cfg ga disp unl dry (Suc i) (ps1 @ ps2) st1 =
         (case replay_loop cfg ga disp unl dry (Suc i) ps1 st1 of
            Inl e \<Rightarrow> Inl e
          | Inr st1 \<Rightarrow>
              if success st1
              then replay_loop cfg ga disp unl dry (i + length (p # ps1)) ps2 st1
              else Inr st1)" .
      moreover have "replay_loop cfg ga disp unl dry i ((p # ps1) @ ps2) st
          = replay_loop cfg ga disp unl dry (Suc i) (ps1 @ ps2) st1"
        using Inr r False by simp
      moreover have "replay_loop cfg ga disp unl dry i (p # ps1) st
          = replay_loop cfg ga disp unl dry (Suc i) ps1 st1"
        using Inr r False by simp
      ultimately show ?thesis by (simp only:)
    qed
  qed
qed

lemma early_abort_returns:
  fixes cfg :: "('w, 'img) wrapper"
  assumes data: "source_robot_states cfg episode = Some data"
      and cam: "camera_pose_of (camera_poses cfg) episode disp = Inr cp"
      and split: "pos data = ps1 @ p # ps2"
      and before: "replay_loop cfg (grip data) disp False dry_run 0 ps1
                     (init_state (setup_camera (target_env cfg) cp (fov data) w)) = Inr st1"
                  "success st1"
      and idx: "length ps1 < length (grip data)"
      and grip: "match_gripper (target_env cfg) (grip data ! length ps1) (sim st1)
                   = (attempt, d, wg, calls)"
      and drive: "drive_robot_to_target_pose (target_env cfg) (remap_target cfg disp p) wg
                   = ((False, reached_pose, err), w2)"
      and some: "dry_run \<or> ps1 \<noteq> []"
  shows "snd (generate_image cfg (Some disp) False episode dry_run w)
           = Inr ((False, vsub (fst reached_pose) (fst (remap_target cfg disp p)), length ps1), w2)"
proof -
  define st0 :: "('w, 'img) replay_state"
    where "st0 = init_state (setup_camera (target_env cfg) cp (fov data) w)"
  define st2 where "st2 = st1\<lparr> sim := w2, success := False,
      suggestion := vsub (fst reached_pose) (fst (remap_target cfg disp p)) \<rparr>"
  have s0: "success st0" by (simp add: st0_def init_state_def)
  have step: "replay_step cfg (grip data) disp False dry_run (length ps1) p st1 = Inr (True, st2)"
    unfolding replay_step_def st2_def using idx grip drive by simp
  have "replay_loop cfg (grip data) disp False dry_run 0 (ps1 @ p # ps2) st0 = Inr st2"
    using replay_loop_append [OF s0, of cfg "grip data" disp False dry_run 0 ps1 "p # ps2"]
      before step unfolding st0_def [symmetric] by simp
  then have loop: "replay_loop cfg (grip data) disp False dry_run 0 (pos data) st0 = Inr st2"
    by (simp add: split)
  from replay_loop_inv [OF before(1)] before(2) s0
  have g: "grown dry_run st0 st1 (length ps1)" unfolding st0_def [symmetric] by auto
  then have n: "length (target_pose_list st2) = length ps1"
    "\<not> dry_run \<Longrightarrow> length (mask_frames st2) = length ps1"
    "\<not> dry_run \<Longrightarrow> length (video_frames st2) = length ps1"
    by (simp_all add: grown_def st0_def init_state_def st2_def)
  have "snd (finish_replay episode disp dry_run st2)
          = Inr ((False, vsub (fst reached_pose) (fst (remap_target cfg disp p)), length ps1), w2)"
  proof (cases dry_run)
    case True
    with n show ?thesis by (simp add: finish_replay_def st2_def)
  next
    case False
    with some n have "mask_frames st2 \<noteq> []" "video_frames st2 \<noteq> []" by auto
    with n False show ?thesis by (simp add: finish_replay_def st2_def)
  qed
  with data cam loop show ?thesis
    unfolding generate_image_def st0_def [symmetric]
    by (simp add: Let_def st0_def [symmetric])
qed

text \<open>
  Claim C1, at the input where the code departs from it. Episode 1 of the example has a
  single pose, which the motion controller reports as not reached, with residual
  \<open>(-1, 0, 0)\<close>. The dry-run replay returns \<^verbatim>\<open>(False, (-1, 0, 0), 0)\<close>. The committing
  replay creates the two output directories, leaves the loop with empty frame buffers and
  raises \<^verbatim>\<open>ValueError\<close> in \<^verbatim>\<open>np.stack\<close> (line 168): it returns nothing.
\<close>

theorem first_step_failure_raises_on_commit:
  "drive_robot_to_target_pose (target_env toy_cfg)
       (remap_target toy_cfg zeros3 ((2, 0, 0), q0)) toy0 =
     ((False, ((1, 0, 0), q0), 1), (0, (1, 0, 0), q0))
   \<and> generate_image toy_cfg (Some zeros3) False 1 True toy0 =
     ([], Inr ((False, (- 1, 0, 0), 0), (0, (1, 0, 0), q0)))
   \<and> generate_image toy_cfg (Some zeros3) False 1 False toy0 =
     ([Mkdir_mask_dir, Mkdir_video_dir], Inl ValueError)"
  using toy_drive_step0 toy_dry_fails_at_step0 toy_commit_fails_at_step0 by (intro conjI)

section \<open>The displacement search\<close>

lemma eval_candidates_trace:
  "eval_candidates replay cs bs bd s lg0 = (lg, r) \<Longrightarrow>
     \<exists>new. lg = lg0 @ new \<and> prefix (map fst new) cs
       \<and> (\<forall>p \<in> set (butlast new). \<not> fst (snd p))
       \<and> (case r of
            Inl e \<Rightarrow> (\<forall>p \<in> set new. \<not> fst (snd p))
          | Inr (found, bd', bs', s') \<Rightarrow>
              if found then new \<noteq> [] \<and> fst (snd (last new)) \<and> bd' = fst (last new)
              else (\<forall>p \<in> set new. \<not> fst (snd p)) \<and> map fst new = cs)"
proof (induction cs arbitrary: bs bd s lg0)
  case Nil
  then show ?case by auto
next
  case (Cons cand cs)
  show ?case
  proof (cases "replay cand s")
    case (Inl e)
    with Cons.prems show ?thesis by auto
  next
    case (Inr x)
    obtain ok sug steps s1 where x: "x = ((ok, sug, steps), s1)" by (cases x) auto
    show ?thesis
    proof (cases ok)
      case True
      with Cons.prems Inr x have "lg = lg0 @ [(cand, True, steps)]" "r = Inr (True, cand, int steps, s1)"
        by auto
      then show ?thesis by (intro exI [of _ "[(cand, True, steps)]"]) simp
    next
      case False
      with Cons.prems Inr x obtain bs1 bd1 where
        rec: "eval_candidates replay cs bs1 bd1 s1 (lg0 @ [(cand, False, steps)]) = (lg, r)"
        by (auto split: if_splits)
      from Cons.IH [OF rec] obtain new where
        n: "lg = (lg0 @ [(cand, False, steps)]) @ new" "prefix (map fst new) cs"
           "\<forall>p \<in> set (butlast new). \<not> fst (snd p)"
           "case r of
              Inl e \<Rightarrow> (\<forall>p \<in> set new. \<not> fst (snd p))
            | Inr (found, bd', bs', s') \<Rightarrow>
              if found then new \<noteq> [] \<and> fst (snd (last new)) \<and> bd' = fst (last new)
              else (\<forall>p \<in> set new. \<not> fst (snd p)) \<and> map fst new = cs"
        by blast
      let ?new = "(cand, False, steps) # new"
      have "lg = lg0 @ ?new" using n(1) by simp
      moreover have "prefix (map fst ?new) (cand # cs)" using n(2) by simp
      moreover have "\<forall>p \<in> set (butlast ?new). \<not> fst (snd p)" using n(3) by auto
      moreover have "case r of
              Inl e \<Rightarrow> (\<forall>p \<in> set ?new. \<not> fst (snd p))
            | Inr (found, bd', bs', s') \<Rightarrow>
              if found then ?new \<noteq> [] \<and> fst (snd (last ?new)) \<and> bd' = fst (last ?new)
              else (\<forall>p \<in> set ?new. \<not> fst (snd p)) \<and> map fst ?new = cand # cs"
      proof (cases r)
        case (Inl e)
        with n(4) show ?thesis by simp
      next
        case (Inr y)
        obtain found bd' bs' s' where y: "y = (found, bd', bs', s')" by (cases y) auto
        show ?thesis
        proof (cases found)
          case True
          with n(4) Inr y show ?thesis by simp
        next
          case False
          with n(4) Inr y show ?thesis by simp
        qed
      qed
      ultimately show ?thesis by blast
    qed
  qed
qed

lemma eval_candidates_best:
  "eval_candidates replay cs bs bd s lg0 = (lg, Inr (False, bd', bs', s')) \<Longrightarrow>
     \<exists>new. lg = lg0 @ new
       \<and> ((bs' = bs \<and> bd' = bd \<and> (\<forall>q \<in> set new. int (snd (snd q)) \<le> bs))
          \<or> (bs < bs' \<and> (\<exists>before p after. new = before @ p # after \<and> bd' = fst p
                \<and> bs' = int (snd (snd p))
                \<and> (\<forall>q \<in> set before. snd (snd q) < snd (snd p))
                \<and> (\<forall>q \<in> set after. snd (snd q) \<le> snd (snd p)))))"
proof (induction cs arbitrary: bs bd s lg0)
  case Nil
  then show ?case by auto
next
  case (Cons cand cs)
  from Cons.prems obtain ok sug steps s1 where x: "replay cand s = Inr ((ok, sug, steps), s1)"
    by (auto split: sum.splits)
  with Cons.prems have nok: "\<not> ok" by (auto split: if_splits)
  let ?pr = "(cand, False, steps)"
  show ?case
  proof (cases "int steps > bs")
    case True
    with Cons.prems x nok have
      rec: "eval_candidates replay cs (int steps) cand s1 (lg0 @ [?pr]) = (lg, Inr (False, bd', bs', s'))"
      by simp
    from Cons.IH [OF rec] obtain new where
      n: "lg = (lg0 @ [?pr]) @ new"
      and d: "(bs' = int steps \<and> bd' = cand \<and> (\<forall>q \<in> set new. int (snd (snd q)) \<le> int steps))
          \<or> (int steps < bs' \<and> (\<exists>before p after. new = before @ p # after \<and> bd' = fst p
                \<and> bs' = int (snd (snd p))
                \<and> (\<forall>q \<in> set before. snd (snd q) < snd (snd p))
                \<and> (\<forall>q \<in> set after. snd (snd q) \<le> snd (snd p))))"
      by blast
    from d have "\<exists>before p after. ?pr # new = before @ p # after \<and> bd' = fst p
                \<and> bs' = int (snd (snd p))
                \<and> (\<forall>q \<in> set before. snd (snd q) < snd (snd p))
                \<and> (\<forall>q \<in> set after. snd (snd q) \<le> snd (snd p))"
    proof
      assume a: "bs' = int steps \<and> bd' = cand \<and> (\<forall>q \<in> set new. int (snd (snd q)) \<le> int steps)"
      then show ?thesis
        by (intro exI [of _ "[]"] exI [of _ ?pr] exI [of _ new]) auto
    next
      assume "int steps < bs' \<and> (\<exists>before p after. new = before @ p # after \<and> bd' = fst p
                \<and> bs' = int (snd (snd p))
                \<and> (\<forall>q \<in> set before. snd (snd q) < snd (snd p))
                \<and> (\<forall>q \<in> set after. snd (snd q) \<le> snd (snd p)))"
      then obtain before p after where
        b: "int steps < bs'" "new = before @ p # after" "bd' = fst p" "bs' = int (snd (snd p))"
           "\<forall>q \<in> set before. snd (snd q) < snd (snd p)"
           "\<forall>q \<in> set after. snd (snd q) \<le> snd (snd p)"
        by blast
      then show ?thesis
        by (intro exI [of _ "?pr # before"] exI [of _ p] exI [of _ after]) auto
    qed
    moreover have "bs < bs'" using d True by auto
    moreover have "lg = lg0 @ (?pr # new)" using n by simp
    ultimately show ?thesis by blast
  next
    case False
    with Cons.prems x nok have
      rec: "eval_candidates replay cs bs bd s1 (lg0 @ [?pr]) = (lg, Inr (False, bd', bs', s'))"
      by simp
    from Cons.IH [OF rec] obtain new where
      n: "lg = (lg0 @ [?pr]) @ new"
      and d: "(bs' = bs \<and> bd' = bd \<and> (\<forall>q \<in> set new. int (snd (snd q)) \<le> bs))
          \<or> (bs < bs' \<and> (\<exists>before p after. new = before @ p # after \<and> bd' = fst p
                \<and> bs' = int (snd (snd p))
                \<and> (\<forall>q \<in> set before. snd (snd q) < snd (snd p))
                \<and> (\<forall>q \<in> set after. snd (snd q) \<le> snd (snd p))))"
      by blast
    from d have "(bs' = bs \<and> bd' = bd \<and> (\<forall>q \<in> set (?pr # new). int (snd (snd q)) \<le> bs))
          \<or> (bs < bs' \<and> (\<exists>before p after. ?pr # new = before @ p # after \<and> bd' = fst p
                \<and> bs' = int (snd (snd p))
                \<and> (\<forall>q \<in> set before. snd (snd q) < snd (snd p))
                \<and> (\<forall>q \<in> set after. snd (snd q) \<le> snd (snd p))))"
    proof
      assume "bs' = bs \<and> bd' = bd \<and> (\<forall>q \<in> set new. int (snd (snd q)) \<le> bs)"
      with False show ?thesis by auto
    next
      assume "bs < bs' \<and> (\<exists>before p after. new = before @ p # after \<and> bd' = fst p
                \<and> bs' = int (snd (snd p))
                \<and> (\<forall>q \<in> set before. snd (snd q) < snd (snd p))
                \<and> (\<forall>q \<in> set after. snd (snd q) \<le> snd (snd p)))"
      then obtain before p after where
        b: "bs < bs'" "new = before @ p # after" "bd' = fst p" "bs' = int (snd (snd p))"
           "\<forall>q \<in> set before. snd (snd q) < snd (snd p)"
           "\<forall>q \<in> set after. snd (snd q) \<le> snd (snd p)"
        by blast
      from b(1,4) False have "steps < snd (snd p)" by simp
      with b have "?pr # new = (?pr # before) @ p # after \<and> bd' = fst p
                \<and> bs' = int (snd (snd p))
                \<and> (\<forall>q \<in> set (?pr # before). snd (snd q) < snd (snd p))
                \<and> (\<forall>q \<in> set after. snd (snd q) \<le> snd (snd p))" by simp
      with b(1) show ?thesis by blast
    qed
    moreover have "lg = lg0 @ (?pr # new)" using n by simp
    ultimately show ?thesis by blast
  qed
qed

lemma candidates_length: "length (candidates d step) = 7"
  by (simp add: candidates_def)

lemma round_without_success:
  assumes "eval_candidates replay (candidates d step) (- 1) d s [] = (lg, Inr (False, bd, bs, s'))"
  shows "first_best lg bd" and "map fst lg = candidates d step" and "\<forall>p \<in> set lg. \<not> fst (snd p)"
proof -
  from eval_candidates_trace [OF assms]
  show c: "map fst lg = candidates d step" and "\<forall>p \<in> set lg. \<not> fst (snd p)" by auto
  from c have ne: "lg \<noteq> []" by (auto simp: candidates_def)
  from eval_candidates_best [OF assms] have
    "(bs = - 1 \<and> bd = d \<and> (\<forall>q \<in> set lg. int (snd (snd q)) \<le> - 1))
       \<or> (- 1 < bs \<and> (\<exists>before p after. lg = before @ p # after \<and> bd = fst p
                \<and> bs = int (snd (snd p))
                \<and> (\<forall>q \<in> set before. snd (snd q) < snd (snd p))
                \<and> (\<forall>q \<in> set after. snd (snd q) \<le> snd (snd p))))"
    by simp
  then show "first_best lg bd"
  proof
    assume "bs = - 1 \<and> bd = d \<and> (\<forall>q \<in> set lg. int (snd (snd q)) \<le> - 1)"
    then have all: "\<forall>q \<in> set lg. int (snd (snd q)) \<le> - 1" by blast
    from ne have "hd lg \<in> set lg" by simp
    with all have "int (snd (snd (hd lg))) \<le> - 1" by blast
    then have False by arith
    then show ?thesis ..
  next
    assume "- 1 < bs \<and> (\<exists>before p after. lg = before @ p # after \<and> bd = fst p
                \<and> bs = int (snd (snd p))
                \<and> (\<forall>q \<in> set before. snd (snd q) < snd (snd p))
                \<and> (\<forall>q \<in> set after. snd (snd q) \<le> snd (snd p)))"
    then show ?thesis unfolding first_best_def by blast
  qed
qed

lemma round_with_success:
  assumes "eval_candidates replay (candidates d step) (- 1) d s [] = (lg, Inr (True, bd, bs, s'))"
  shows "lg \<noteq> []" and "fst (snd (last lg))" and "bd = fst (last lg)"
  using eval_candidates_trace [OF assms] by auto

lemma round_shape:
  assumes "eval_candidates replay (candidates d step) (- 1) d s [] = (lg, res)"
  shows "prefix (map fst lg) (candidates d step)" and "\<forall>p \<in> set (butlast lg). \<not> fst (snd p)"
  using eval_candidates_trace [OF assms] by auto

lemma round_raised:
  assumes "eval_candidates replay (candidates d step) (- 1) d s [] = (lg, Inl e)"
  shows "\<forall>p \<in> set lg. \<not> fst (snd p)"
  using eval_candidates_trace [OF assms] by auto

lemma search_loop_acc:
  "search_loop replay n step d s rounds0 =
     (rounds0 @ fst (search_loop replay n step d s []), snd (search_loop replay n step d s []))"
proof (induction n arbitrary: step d s rounds0)
  case 0
  show ?case by simp
next
  case (Suc n)
  obtain lg res where e: "eval_candidates replay (candidates d step) (- 1) d s [] = (lg, res)"
    by (cases "eval_candidates replay (candidates d step) (- 1) d s []")
  show ?case
  proof (cases res)
    case (Inl x)
    with e show ?thesis by simp
  next
    case (Inr y)
    obtain found bd bs s' where y: "y = (found, bd, bs, s')" by (cases y) auto
    show ?thesis
    proof (cases found)
      case True
      with e Inr y show ?thesis by simp
    next
      case False
      from Suc.IH [of "step * 0.5" bd s' "rounds0 @ [(d, step, lg)]"]
           Suc.IH [of "step * 0.5" bd s' "[(d, step, lg)]"]
      show ?thesis using e Inr y False by simp
    qed
  qed
qed

lemma search_loop_Suc:
  assumes "search_loop replay (Suc n) step d s [] = (rounds, r)"
  obtains
    (raised) lg e where
      "eval_candidates replay (candidates d step) (- 1) d s [] = (lg, Inl e)"
      "rounds = [(d, step, lg)]" "r = Inl e"
  | (found) lg bd bs s' where
      "eval_candidates replay (candidates d step) (- 1) d s [] = (lg, Inr (True, bd, bs, s'))"
      "rounds = [(d, step, lg)]" "r = Inr (bd, s')"
  | (continued) lg bd bs s' rest where
      "eval_candidates replay (candidates d step) (- 1) d s [] = (lg, Inr (False, bd, bs, s'))"
      "rounds = (d, step, lg) # rest"
      "search_loop replay n (step / 2) bd s' [] = (rest, r)"
proof -
  obtain lg res where e: "eval_candidates replay (candidates d step) (- 1) d s [] = (lg, res)"
    by (cases "eval_candidates replay (candidates d step) (- 1) d s []")
  show thesis
  proof (cases res)
    case (Inl x)
    with e assms raised show ?thesis by simp
  next
    case (Inr y)
    obtain fnd bd bs s' where y: "y = (fnd, bd, bs, s')" by (cases y) auto
    show ?thesis
    proof (cases fnd)
      case True
      with e Inr y assms found show ?thesis by simp
    next
      case False
      obtain rest r' where rr: "search_loop replay n (step / 2) bd s' [] = (rest, r')"
        by (cases "search_loop replay n (step / 2) bd s' []")
      from assms e Inr y False
      have "search_loop replay n (step * 0.5) bd s' [(d, step, lg)] = (rounds, r)" by simp
      with search_loop_acc [of replay n "step * 0.5" bd s' "[(d, step, lg)]"] rr
      have "rounds = (d, step, lg) # rest" "r = r'" by simp_all
      with e Inr y False rr continued show ?thesis by simp
    qed
  qed
qed


lemma search_loop_length:
  "search_loop replay n step d s [] = (rounds, r) \<Longrightarrow> length rounds \<le> n"
proof (induction n arbitrary: step d s rounds)
  case 0
  then show ?case by simp
next
  case (Suc n)
  from Suc.prems show ?case
  proof (cases rule: search_loop_Suc)
    case (continued lg bd bs s' rest)
    from Suc.IH [OF continued(3)] continued(2) show ?thesis by simp
  qed simp_all
qed

lemma search_loop_start:
  "search_loop replay n step d s [] = (rounds, r) \<Longrightarrow>
     (n = 0 \<longrightarrow> rounds = []) \<and> (rounds \<noteq> [] \<longrightarrow> (\<exists>lg. hd rounds = (d, step, lg)))"
proof (cases n)
  case 0
  assume "search_loop replay n step d s [] = (rounds, r)"
  with 0 show ?thesis by simp
next
  case (Suc m)
  assume "search_loop replay n step d s [] = (rounds, r)"
  then have "search_loop replay (Suc m) step d s [] = (rounds, r)" using Suc by simp
  then show ?thesis by (cases rule: search_loop_Suc) (simp_all add: Suc)
qed

lemma search_loop_nonempty:
  assumes "search_loop replay (Suc m) step d s [] = (rounds, r)"
  shows "rounds \<noteq> []"
  using assms by (cases rule: search_loop_Suc) simp_all

lemma search_loop_rounds:
  "search_loop replay n step d s [] = (rounds, r) \<Longrightarrow> (c, st, lg) \<in> set rounds \<Longrightarrow>
     prefix (map fst lg) (candidates c st) \<and> (\<forall>p \<in> set (butlast lg). \<not> fst (snd p))"
proof (induction n arbitrary: step d s rounds)
  case 0
  then show ?case by simp
next
  case (Suc n)
  from Suc.prems(1) show ?case
  proof (cases rule: search_loop_Suc)
    case (raised lg' e)
    with Suc.prems(2) round_shape [OF raised(1)] show ?thesis by simp
  next
    case (found lg' bd bs s')
    with Suc.prems(2) round_shape [OF found(1)] show ?thesis by simp
  next
    case (continued lg' bd bs s' rest)
    from Suc.prems(2) continued(2)
    have "(c, st, lg) = (d, step, lg') \<or> (c, st, lg) \<in> set rest" by simp
    then show ?thesis
    proof
      assume "(c, st, lg) = (d, step, lg')"
      with round_shape [OF continued(1)] show ?thesis by simp
    next
      assume "(c, st, lg) \<in> set rest"
      from Suc.IH [OF continued(3) this] show ?thesis .
    qed
  qed
qed

lemma success_is_last_probe:
  assumes "\<forall>p \<in> set (butlast lg). \<not> fst (snd p)" and "lg = P @ p # Q" and "fst (snd p)"
  shows "Q = []"
proof (rule ccontr)
  assume "Q \<noteq> []"
  then have "butlast lg = P @ p # butlast Q" using assms(2) by (simp add: butlast_append)
  with assms(1,3) show False by simp
qed

lemma search_loop_success:
  "search_loop replay n step d s [] = (rounds, r) \<Longrightarrow> rounds = A @ (c, st, lg) # B \<Longrightarrow>
     lg = P @ p # Q \<Longrightarrow> fst (snd p) \<Longrightarrow> Q = [] \<and> B = [] \<and> (\<exists>s'. r = Inr (fst p, s'))"
proof (induction n arbitrary: step d s rounds A)
  case 0
  then show ?case by simp
next
  case (Suc n)
  from Suc.prems(1) show ?case
  proof (cases rule: search_loop_Suc)
    case (raised lg' e)
    with Suc.prems(2) have "lg' = lg" by (cases A) auto
    with round_raised [OF raised(1)] Suc.prems(3,4) show ?thesis by auto
  next
    case (found lg' bd bs s')
    with Suc.prems(2) have l: "lg' = lg" "B = []" by (cases A; auto)+
    from round_shape(2) [OF found(1)] l Suc.prems(3,4) have q: "Q = []"
      using success_is_last_probe by blast
    with round_with_success(3) [OF found(1)] l Suc.prems(3) have "bd = fst p" by simp
    with q l found(3) show ?thesis by simp
  next
    case (continued lg' bd bs s' rest)
    show ?thesis
    proof (cases A)
      case Nil
      with Suc.prems(2) continued(2) have "lg' = lg" by simp
      with round_without_success(3) [OF continued(1)] Suc.prems(3,4) show ?thesis by auto
    next
      case (Cons a A')
      with Suc.prems(2) continued(2) have "rest = A' @ (c, st, lg) # B" by simp
      from Suc.IH [OF continued(3) this Suc.prems(3,4)] show ?thesis .
    qed
  qed
qed

lemma search_loop_next_round:
  "search_loop replay n step d s [] = (rounds, r) \<Longrightarrow>
     rounds = A @ (c, st, lg) # (c2, st2, lg2) # B \<Longrightarrow>
     (\<forall>p \<in> set lg. \<not> fst (snd p)) \<and> map fst lg = candidates c st
       \<and> first_best lg c2 \<and> st2 = st / 2"
proof (induction n arbitrary: step d s rounds A)
  case 0
  then show ?case by simp
next
  case (Suc n)
  from Suc.prems(1) show ?case
  proof (cases rule: search_loop_Suc)
    case (raised lg' e)
    with Suc.prems(2) show ?thesis by (cases A) auto
  next
    case (found lg' bd bs s')
    with Suc.prems(2) show ?thesis by (cases A) auto
  next
    case (continued lg' bd bs s' rest)
    show ?thesis
    proof (cases A)
      case Nil
      with Suc.prems(2) continued(2) have
        e: "c = d" "st = step" "lg' = lg" "rest = (c2, st2, lg2) # B" by simp_all
      from search_loop_start [OF continued(3)] e(4) have "c2 = bd" "st2 = step / 2" by auto
      with round_without_success [OF continued(1)] e show ?thesis by simp
    next
      case (Cons a A')
      with Suc.prems(2) continued(2) have "rest = A' @ (c, st, lg) # (c2, st2, lg2) # B" by simp
      from Suc.IH [OF continued(3) this] show ?thesis .
    qed
  qed
qed

lemma search_loop_last_round:
  "search_loop replay n step d s [] = (rounds, r) \<Longrightarrow> rounds = A @ [(c, st, lg)] \<Longrightarrow>
     r = Inr (d', s') \<Longrightarrow> \<forall>p \<in> set lg. \<not> fst (snd p) \<Longrightarrow>
     first_best lg d' \<and> map fst lg = candidates c st \<and> length rounds = n"
proof (induction n arbitrary: step d s rounds A)
  case 0
  then show ?case by simp
next
  case (Suc n)
  from Suc.prems(1) show ?case
  proof (cases rule: search_loop_Suc)
    case (raised lg' e)
    with Suc.prems(3) show ?thesis by simp
  next
    case (found lg' bd bs s1)
    with Suc.prems(2) have "lg' = lg" by (cases A) auto
    with round_with_success(1,2) [OF found(1)] Suc.prems(4) show ?thesis by auto
  next
    case (continued lg' bd bs s1 rest)
    show ?thesis
    proof (cases A)
      case Nil
      with Suc.prems(2) continued(2) have e: "c = d" "st = step" "lg' = lg" "rest = []" by simp_all
      have n0: "n = 0"
      proof (cases n)
        case 0
        then show ?thesis .
      next
        case (Suc m)
        from continued(3) [unfolded Suc] have "rest \<noteq> []" by (rule search_loop_nonempty)
        with e(4) show ?thesis by simp
      qed
      with continued(3) Suc.prems(3) have "d' = bd" by simp
      with round_without_success [OF continued(1)] e continued(2) n0 show ?thesis by simp
    next
      case (Cons a A')
      with Suc.prems(2) continued(2) have "rest = A' @ [(c, st, lg)]" by simp
      from Suc.IH [OF continued(3) this Suc.prems(3,4)] continued(2) show ?thesis by simp
    qed
  qed
qed


section \<open>The search: bounded, greedy, hill-climbing\<close>

text \<open>
  Claim C4. The search runs at most 5 rounds. Each round evaluates at most 7 candidates,
  in the order centre, +X, -X, +Y, -Y, +Z, -Z around the displacement the round starts
  from. A candidate whose dry-run replay succeeds is the last candidate evaluated in its
  round, its round is the last round, and the search returns that candidate.
\<close>

theorem search_stops_at_first_success:
  assumes "search_displacement replay d s = (rounds, r)"
  shows "length rounds \<le> 5
    \<and> (\<forall>(c, st, lg) \<in> set rounds. length lg \<le> 7
          \<and> prefix (map fst lg)
               [c, vadd c (st, 0, 0), vsub c (st, 0, 0), vadd c (0, st, 0), vsub c (0, st, 0),
                vadd c (0, 0, st), vsub c (0, 0, st)])
    \<and> (\<forall>A c st lg B P p Q. rounds = A @ (c, st, lg) # B \<and> lg = P @ p # Q \<and> fst (snd p)
          \<longrightarrow> Q = [] \<and> B = [] \<and> (\<exists>s'. r = Inr (fst p, s')))"
proof -
  note run = assms [unfolded search_displacement_def]
  have "length rounds \<le> 5" by (rule search_loop_length [OF run])
  moreover have "\<forall>(c, st, lg) \<in> set rounds. length lg \<le> 7
          \<and> prefix (map fst lg)
               [c, vadd c (st, 0, 0), vsub c (st, 0, 0), vadd c (0, st, 0), vsub c (0, st, 0),
                vadd c (0, 0, st), vsub c (0, 0, st)]"
  proof (clarify)
    fix c st lg assume "(c, st, lg) \<in> set rounds"
    from search_loop_rounds [OF run this] have p: "prefix (map fst lg) (candidates c st)" by simp
    from prefix_length_le [OF p] have "length lg \<le> 7" by (simp add: candidates_length)
    with p show "length lg \<le> 7
          \<and> prefix (map fst lg)
               [c, vadd c (st, 0, 0), vsub c (st, 0, 0), vadd c (0, st, 0), vsub c (0, st, 0),
                vadd c (0, 0, st), vsub c (0, 0, st)]"
      by (simp add: candidates_def)
  qed
  moreover have "\<forall>A c st lg B P p Q. rounds = A @ (c, st, lg) # B \<and> lg = P @ p # Q \<and> fst (snd p)
          \<longrightarrow> Q = [] \<and> B = [] \<and> (\<exists>s'. r = Inr (fst p, s'))"
    using search_loop_success [OF run] by blast
  ultimately show ?thesis by blast
qed

theorem search_stops_at_first_success_witness:
  "search_displacement (dry_replay toy_cfg False 2) zeros3 toy0 =
     ([((0, 0, 0), 0.05, [((0, 0, 0), False, 1), ((0.05, 0, 0), True, 2)])],
      Inr ((0.05, 0, 0), (0, (0.99, 0, 0), q0)))
   \<and> length [((0, 0, 0) :: vec3, 0.05 :: real,
                [((0, 0, 0), False, 1), ((0.05, 0, 0), True, 2)] :: probe list)] \<le> 5
   \<and> (\<exists>s'. (Inr ((0.05, 0, 0), (0, (0.99, 0, 0), q0)) :: exn + vec3 \<times> toy)
            = Inr (fst (((0.05, 0, 0), True, 2) :: probe), s'))"
proof -
  note T = search_stops_at_first_success [OF toy_search_found]
  note L = T [THEN conjunct1]
  note S = T [THEN conjunct2, THEN conjunct2, rule_format,
      of "[]" "(0, 0, 0)" "0.05" "[((0, 0, 0), False, 1), ((0.05, 0, 0), True, 2)]" "[]"
         "[((0, 0, 0), False, 1)]" "((0.05, 0, 0), True, 2)" "[]"]
  have "\<exists>s'. (Inr ((0.05, 0, 0), (0, (0.99, 0, 0), q0)) :: exn + vec3 \<times> toy)
            = Inr (fst (((0.05, 0, 0), True, 2) :: probe), s')"
    using S by simp
  with toy_search_found L show ?thesis by (intro conjI)
qed

text \<open>
  Claim C5. A round in which no candidate succeeds has evaluated all 7 candidates; the
  displacement of the next round (or, after the last round, the displacement the search
  returns) is the earliest candidate with the highest \<^verbatim>\<open>steps_completed\<close>, and the
  next round's step is half the step of this one. The first round starts from the initial
  displacement with step 0.05.
\<close>

theorem failed_round_moves_to_first_best:
  assumes "search_displacement replay d s = (rounds, r)"
  shows "(\<forall>A c st lg c2 st2 lg2 B. rounds = A @ (c, st, lg) # (c2, st2, lg2) # B
            \<longrightarrow> (\<forall>p \<in> set lg. \<not> fst (snd p)) \<and> map fst lg = candidates c st
                \<and> first_best lg c2 \<and> st2 = st / 2)
    \<and> (\<forall>A c st lg d' s'. rounds = A @ [(c, st, lg)] \<and> r = Inr (d', s')
            \<and> (\<forall>p \<in> set lg. \<not> fst (snd p))
            \<longrightarrow> first_best lg d' \<and> map fst lg = candidates c st)
    \<and> (\<exists>lg rest. rounds = (d, 0.05, lg) # rest)"
proof -
  note run = assms [unfolded search_displacement_def]
  have "\<forall>A c st lg c2 st2 lg2 B. rounds = A @ (c, st, lg) # (c2, st2, lg2) # B
            \<longrightarrow> (\<forall>p \<in> set lg. \<not> fst (snd p)) \<and> map fst lg = candidates c st
                \<and> first_best lg c2 \<and> st2 = st / 2"
    using search_loop_next_round [OF run] by blast
  moreover have "\<forall>A c st lg d' s'. rounds = A @ [(c, st, lg)] \<and> r = Inr (d', s')
            \<and> (\<forall>p \<in> set lg. \<not> fst (snd p))
            \<longrightarrow> first_best lg d' \<and> map fst lg = candidates c st"
    using search_loop_last_round [OF run] by blast
  moreover have "\<exists>lg rest. rounds = (d, 0.05, lg) # rest"
  proof -
    from run have "search_loop replay (Suc 4) 0.05 d s [] = (rounds, r)"
      by (simp add: eval_nat_numeral)
    from search_loop_nonempty [OF this] have "rounds \<noteq> []" .
    with search_loop_start [OF run] obtain lg where "hd rounds = (d, 0.05, lg)" by auto
    with \<open>rounds \<noteq> []\<close> show ?thesis by (cases rounds) auto
  qed
  ultimately show ?thesis by blast
qed

theorem failed_round_moves_to_first_best_witness:
  "search_displacement (dry_replay toy_cfg False 3) zeros3 toy0 =
     ([((0, 0, 0), 0.05,
        [((0, 0, 0), False, 0), ((0.05, 0, 0), False, 1), ((- 0.05, 0, 0), False, 0),
         ((0, 0.05, 0), False, 0), ((0, - 0.05, 0), False, 0),
         ((0, 0, 0.05), False, 0), ((0, 0, - 0.05), False, 0)]),
       ((0.05, 0, 0), 0.025, [((0.05, 0, 0), False, 1), ((0.075, 0, 0), True, 2)])],
      Inr ((0.075, 0, 0), (0, (0.985, 0, 0), q0)))
   \<and> first_best
        [((0, 0, 0), False, 0), ((0.05, 0, 0), False, 1), ((- 0.05, 0, 0), False, 0),
         ((0, 0.05, 0), False, 0), ((0, - 0.05, 0), False, 0),
         ((0, 0, 0.05), False, 0), ((0, 0, - 0.05), False, 0)] (0.05, 0, 0)
   \<and> (0.025 :: real) = 0.05 / 2"
proof -
  note T = failed_round_moves_to_first_best [OF toy_search_two_rounds]
  note N = T [THEN conjunct1, rule_format,
      of "[]" "(0, 0, 0)" "0.05"
         "[((0, 0, 0), False, 0), ((0.05, 0, 0), False, 1), ((- 0.05, 0, 0), False, 0),
           ((0, 0.05, 0), False, 0), ((0, - 0.05, 0), False, 0),
           ((0, 0, 0.05), False, 0), ((0, 0, - 0.05), False, 0)]"
         "(0.05, 0, 0)" "0.025" "[((0.05, 0, 0), False, 1), ((0.075, 0, 0), True, 2)]" "[]"]
  have e: "[((0, 0, 0) :: vec3, 0.05 :: real,
        [((0, 0, 0), False, 0), ((0.05, 0, 0), False, 1), ((- 0.05, 0, 0), False, 0),
         ((0, 0.05, 0), False, 0), ((0, - 0.05, 0), False, 0),
         ((0, 0, 0.05), False, 0), ((0, 0, - 0.05), False, 0)] :: probe list),
       ((0.05, 0, 0), 0.025, [((0.05, 0, 0), False, 1), ((0.075, 0, 0), True, 2)])]
      = [] @ ((0, 0, 0), 0.05,
        [((0, 0, 0), False, 0), ((0.05, 0, 0), False, 1), ((- 0.05, 0, 0), False, 0),
         ((0, 0.05, 0), False, 0), ((0, - 0.05, 0), False, 0),
         ((0, 0, 0.05), False, 0), ((0, 0, - 0.05), False, 0)])
        # ((0.05, 0, 0), 0.025, [((0.05, 0, 0), False, 1), ((0.075, 0, 0), True, 2)]) # []"
    by simp
  note R = N [OF e]
  from R have "first_best
        [((0, 0, 0), False, 0), ((0.05, 0, 0), False, 1), ((- 0.05, 0, 0), False, 0),
         ((0, 0.05, 0), False, 0), ((0, - 0.05, 0), False, 0),
         ((0, 0, 0.05), False, 0), ((0, 0, - 0.05), False, 0)] (0.05, 0, 0)"
    by (rule conjunct2 [THEN conjunct2, THEN conjunct1])
  moreover from R have "(0.025 :: real) = 0.05 / 2"
    by (rule conjunct2 [THEN conjunct2, THEN conjunct2])
  ultimately show ?thesis using toy_search_two_rounds by (intro conjI)
qed

section \<open>The camera pose\<close>

lemma half_angle_90: "radians 90 / 2 = pi / 4"
  by (simp add: radians_def)

lemma quat_x_90: "quat_x 90 = (sqrt 2 / 2, 0, 0, sqrt 2 / 2)"
  by (simp add: quat_x_def half_angle_90 sin_45 cos_45)

lemma quat_y_90: "quat_y 90 = (0, sqrt 2 / 2, 0, sqrt 2 / 2)"
  by (simp add: quat_y_def half_angle_90 sin_45 cos_45)

lemma quat_z_0: "quat_z 0 = (0, 0, 0, 1)"
  by (simp add: quat_z_def radians_def)

lemma from_euler_xyz_90_90_0: "from_euler_xyz 90 90 0 = (1 / 2, 1 / 2, - 1 / 2, 1 / 2)"
  by (simp add: from_euler_xyz_def quat_x_90 quat_y_90 quat_z_0)

lemma spec_intrinsic_XYZ_90_90_0: "spec_intrinsic_XYZ 90 90 0 = (1 / 2, 1 / 2, 1 / 2, 1 / 2)"
  by (simp add: spec_intrinsic_XYZ_def quat_x_90 quat_y_90 quat_z_0)

lemma toy_camera_pose:
  "camera_pose_of (camera_poses toy_cfg) 0 zeros3
     = Inr ((0.4, 2, 3.912), (1 / 2, 1 / 2, - 1 / 2, 1 / 2))"
  by (simp add: camera_pose_of_def find_viewpoint_def toy_cfg_def toy_viewpoint_def zeros3_def
      from_euler_xyz_90_90_0)

text \<open>
  Claim C9 does not hold as stated. The example viewpoint has roll 90, pitch 90, yaw 0. The
  code's \<^verbatim>\<open>from_euler('xyz', ...)\<close> composes extrinsic rotations and gives the quaternion
  \<open>(1/2, 1/2, -1/2, 1/2)\<close>; the intrinsic X-Y-Z composition of the same angles is
  \<open>(1/2, 1/2, 1/2, 1/2)\<close>, a different rotation.
\<close>

theorem camera_orientation_counterexample:
  "camera_pose_of (camera_poses toy_cfg) 0 zeros3
     = Inr ((0.4, 2, 3.912), (1 / 2, 1 / 2, - 1 / 2, 1 / 2))
   \<and> spec_intrinsic_XYZ (roll toy_viewpoint) (pitch toy_viewpoint) (yaw toy_viewpoint)
     = (1 / 2, 1 / 2, 1 / 2, 1 / 2)
   \<and> ((1 / 2, 1 / 2, - 1 / 2, 1 / 2) :: quat) \<noteq> (1 / 2, 1 / 2, 1 / 2, 1 / 2)"
  using toy_camera_pose spec_intrinsic_XYZ_90_90_0 by (simp add: toy_viewpoint_def)

lemma find_viewpoint_first:
  "find_viewpoint vps episode = Some v \<Longrightarrow>
     \<exists>before after. vps = before @ v # after \<and> episode \<in> set (episodes v)
       \<and> (\<forall>u \<in> set before. episode \<notin> set (episodes u))"
  unfolding find_viewpoint_def
proof (induction vps)
  case Nil
  then show ?case by simp
next
  case (Cons a vps)
  show ?case
  proof (cases "episode \<in> set (episodes a)")
    case True
    with Cons.prems have "a = v" by simp
    with True show ?thesis by (intro exI [of _ "[]"] exI [of _ vps]) simp
  next
    case False
    with Cons.prems have "find (\<lambda>viewpoint. episode \<in> set (episodes viewpoint)) vps = Some v"
      by simp
    from Cons.IH [OF this] obtain before after where
      "vps = before @ v # after" "episode \<in> set (episodes v)"
      "\<forall>u \<in> set before. episode \<notin> set (episodes u)" by blast
    with False show ?thesis by (intro exI [of _ "a # before"] exI [of _ after]) simp
  qed
qed

lemma find_viewpoint_covered:
  "u \<in> set vps \<Longrightarrow> episode \<in> set (episodes u) \<Longrightarrow> \<exists>v. find_viewpoint vps episode = Some v"
  unfolding find_viewpoint_def
  by (cases "find (\<lambda>viewpoint. episode \<in> set (episodes viewpoint)) vps")
     (auto simp: find_None_iff)

text \<open>
  Claim C9, amended. For an episode that some viewpoint holds, the camera pose is taken
  from the first viewpoint in list order that holds it: the position is that viewpoint's
  \<^verbatim>\<open>camera_position\<close> plus \<open>(-0.6, 0.0, 0.912)\<close> minus the displacement of the replay,
  and the orientation is the extrinsic x-y-z composition of roll, pitch and yaw in degrees,
  that is the quaternion product of the rotation about z by yaw, about y by pitch and
  about x by roll, in this order.
\<close>

theorem camera_pose_resolved:
  assumes "u \<in> set (viewpoints info)" and "episode \<in> set (episodes u)"
  shows "\<exists>before v after. viewpoints info = before @ v # after
           \<and> episode \<in> set (episodes v)
           \<and> (\<forall>x \<in> set before. episode \<notin> set (episodes x))
           \<and> camera_pose_of info episode robot_disp
               = Inr (vsub (vadd (camera_position v) (- 0.6, 0.0, 0.912)) robot_disp,
                      quat_mul (quat_z (yaw v)) (quat_mul (quat_y (pitch v)) (quat_x (roll v))))"
proof -
  from find_viewpoint_covered [OF assms] obtain v where
    f: "find_viewpoint (viewpoints info) episode = Some v" by blast
  from find_viewpoint_first [OF f] obtain before after where
    d: "viewpoints info = before @ v # after" "episode \<in> set (episodes v)"
       "\<forall>x \<in> set before. episode \<notin> set (episodes x)" by blast
  from f have "camera_pose_of info episode robot_disp
               = Inr (vsub (vadd (camera_position v) (- 0.6, 0.0, 0.912)) robot_disp,
                      quat_mul (quat_z (yaw v)) (quat_mul (quat_y (pitch v)) (quat_x (roll v))))"
    by (simp add: camera_pose_of_def from_euler_xyz_def)
  with d show ?thesis by blast
qed

theorem camera_pose_resolved_witness:
  "toy_viewpoint \<in> set (viewpoints (camera_poses toy_cfg))
   \<and> (0 :: int) \<in> set (episodes toy_viewpoint)
   \<and> (\<exists>before v after. viewpoints (camera_poses toy_cfg) = before @ v # after
           \<and> 0 \<in> set (episodes v)
           \<and> (\<forall>x \<in> set before. 0 \<notin> set (episodes x))
           \<and> camera_pose_of (camera_poses toy_cfg) 0 zeros3
               = Inr (vsub (vadd (camera_position v) (- 0.6, 0.0, 0.912)) zeros3,
                      quat_mul (quat_z (yaw v)) (quat_mul (quat_y (pitch v)) (quat_x (roll v)))))
   \<and> camera_pose_of (camera_poses toy_cfg) 0 zeros3
     = Inr ((0.4, 2, 3.912), (1 / 2, 1 / 2, - 1 / 2, 1 / 2))"
proof -
  have m: "toy_viewpoint \<in> set (viewpoints (camera_poses toy_cfg))"
    by (simp add: toy_cfg_def)
  have e: "(0 :: int) \<in> set (episodes toy_viewpoint)"
    by (simp add: toy_viewpoint_def)
  from m e camera_pose_resolved [OF m e, of zeros3] toy_camera_pose
  show ?thesis by (intro conjI)
qed

section \<open>The worker boundary\<close>

lemma try_body_result:
  "try_body make_wrapper offsets robot gripper episode unlimited load_displacement = Inr r
     \<Longrightarrow> \<exists>ok. r = (robot, episode, ok)"
  unfolding try_body_def by (auto split: sum.splits prod.splits)

text \<open>
  Claim C3, amended. When \<^verbatim>\<open>pick_best_gpu\<close> returns and the robot has a gripper in
  \<^verbatim>\<open>select_gripper\<close>, the worker returns a tuple \<^verbatim>\<open>(robot, episode, ok)\<close> whatever
  happens afterwards, and an exception raised anywhere in the \<^verbatim>\<open>try\<close> block (building
  the wrapper, the search, the final replay) gives \<^verbatim>\<open>(robot, episode, False)\<close>.
\<close>

theorem worker_catches_body_exceptions:
  assumes "pick_best_gpu = None" and "select_gripper robot = Inr gripper"
  shows "(\<exists>ok. generate_one_episode pick_best_gpu make_wrapper offsets robot episode unlimited
                 load_displacement = Inr (robot, episode, ok))
    \<and> ((\<exists>exc. try_body make_wrapper offsets robot gripper episode unlimited load_displacement
                 = Inl exc)
        \<longrightarrow> generate_one_episode pick_best_gpu make_wrapper offsets robot episode unlimited
              load_displacement = Inr (robot, episode, False))"
proof (cases "try_body make_wrapper offsets robot gripper episode unlimited load_displacement")
  case (Inl exc)
  with assms show ?thesis by (auto simp: generate_one_episode_def)
next
  case (Inr r)
  from try_body_result [OF Inr] obtain ok where "r = (robot, episode, ok)" by blast
  with assms Inr show ?thesis by (simp add: generate_one_episode_def)
qed

lemma select_gripper_known:
  "(\<exists>gripper. select_gripper robot = Inr gripper)
     \<longleftrightarrow> robot \<in> {''Sawyer'', ''Jaco'', ''IIWA'', ''UR5e'', ''Kinova3'', ''Panda''}"
  by (auto simp: select_gripper_def)

lemma toy_unknown_robot:
  "generate_one_episode None toy_make_wrapper no_offsets ''Baxter'' 0 False False
     = Inl ValueError"
  by (simp add: generate_one_episode_def select_gripper_def)

lemma toy_no_gpu:
  "generate_one_episode (Some RuntimeError) toy_make_wrapper no_offsets ''Sawyer'' 0 False False
     = Inl RuntimeError"
  by (simp add: generate_one_episode_def)

lemma toy_dispatcher_crash:
  "collect_results no_whitelists [Inl ValueError, Inr (''Sawyer'', 0, True)]
     = (no_whitelists, Some ValueError)"
  by simp

text \<open>
  Claim C3 does not hold as stated: \<^verbatim>\<open>pick_best_gpu()\<close> and \<^verbatim>\<open>select_gripper(robot)\<close>
  run before the \<^verbatim>\<open>try\<close>. For the unknown robot \<^verbatim>\<open>Baxter\<close> the worker raises
  \<^verbatim>\<open>ValueError\<close>, and so it raises what the device selection raises; the dispatcher's loop
  ends with that exception at \<^verbatim>\<open>fut.result()\<close> and does not reach the results after it.
\<close>

theorem worker_exception_counterexample:
  "generate_one_episode None toy_make_wrapper no_offsets ''Baxter'' 0 False False
     = Inl ValueError
   \<and> generate_one_episode (Some RuntimeError) toy_make_wrapper no_offsets ''Sawyer'' 0 False False
     = Inl RuntimeError
   \<and> collect_results no_whitelists [Inl ValueError, Inr (''Sawyer'', 0, True)]
     = (no_whitelists, Some ValueError)"
  using toy_unknown_robot toy_no_gpu toy_dispatcher_crash by (intro conjI)

lemma toy_body_raises:
  "try_body toy_make_wrapper no_offsets ''Sawyer'' ''RethinkGripper'' 7 False False
     = Inl FileNotFoundError"
  by (simp add: try_body_def toy_make_wrapper_def search_displacement_def dry_replay_def
      candidates_def eval_nat_numeral generate_image_def toy_cfg_def toy_states_def)

lemma toy_sawyer: "select_gripper ''Sawyer'' = Inr ''RethinkGripper''"
  by (simp add: select_gripper_def)

theorem worker_catches_body_exceptions_witness:
  "select_gripper ''Sawyer'' = Inr ''RethinkGripper''
   \<and> try_body toy_make_wrapper no_offsets ''Sawyer'' ''RethinkGripper'' 7 False False
     = Inl FileNotFoundError
   \<and> generate_one_episode None toy_make_wrapper no_offsets ''Sawyer'' 7 False False
     = Inr (''Sawyer'', 7, False)"
proof -
  note T = worker_catches_body_exceptions [OF refl toy_sawyer,
      of toy_make_wrapper no_offsets 7 False False]
  have "\<exists>exc. try_body toy_make_wrapper no_offsets ''Sawyer'' ''RethinkGripper'' 7 False False
          = Inl exc"
    using toy_body_raises by blast
  note R = T [THEN conjunct2, rule_format, OF this]
  from toy_sawyer toy_body_raises R show ?thesis by (intro conjI)
qed

section \<open>The checkpoint\<close>

lemma done_eps_append:
  "done_eps (whitelist_append files robot ep) r =
     (if r = robot then insert ep (done_eps files r) else done_eps files r)"
  by (cases "files robot robot") (auto simp: done_eps_def whitelist_append_def)

lemma collect_results_prefix:
  "done_eps (fst (collect_results files futs)) robot
     = done_eps files robot
       \<union> {ep. Inr (robot, ep, True) \<in> set (takeWhile (\<lambda>fut. \<not> isl fut) futs)}"
proof (induction futs arbitrary: files)
  case Nil
  show ?case by simp
next
  case (Cons fut futs)
  show ?case
  proof (cases fut)
    case (Inl e)
    then show ?thesis by simp
  next
    case (Inr t)
    obtain r ep ok where t: "t = (r, ep, ok)" by (cases t)
    show ?thesis
    proof (cases ok)
      case False
      with Inr t Cons.IH [of files] show ?thesis by auto
    next
      case True
      with Inr t Cons.IH [of "whitelist_append files r ep"] show ?thesis
        by (auto simp: done_eps_append)
    qed
  qed
qed

lemma collect_results_ends:
  "snd (collect_results files futs) = None \<longleftrightarrow> (\<forall>fut \<in> set futs. \<not> isl fut)"
proof (induction futs arbitrary: files)
  case Nil
  show ?case by simp
next
  case (Cons fut futs)
  show ?case
  proof (cases fut)
    case (Inl e)
    then show ?thesis by simp
  next
    case (Inr t)
    obtain r ep ok where t: "t = (r, ep, ok)" by (cases t)
    from Inr t Cons.IH [of files] Cons.IH [of "whitelist_append files r ep"]
    show ?thesis by (cases ok) simp_all
  qed
qed

text \<open>
  Claim C8, amended. The dispatcher adds an episode to a robot's completion set only for a
  returned tuple with \<^verbatim>\<open>ok = True\<close>, and the set persisted when the loop ends is the
  initial set together with exactly the successful episodes of that robot among the futures
  that completed before the first one that raised. When no future raised, the loop ends
  normally, the set is the initial set together with all successfully reported episodes,
  and any two completion orders of the same results give the same set.
\<close>

theorem checkpoint_is_union_until_first_raise:
  "done_eps (fst (collect_results files futs)) robot
     = done_eps files robot
       \<union> {ep. Inr (robot, ep, True) \<in> set (takeWhile (\<lambda>fut. \<not> isl fut) futs)}
   \<and> ((\<forall>fut \<in> set futs. \<not> isl fut) \<longrightarrow>
        snd (collect_results files futs) = None
        \<and> done_eps (fst (collect_results files futs)) robot
            = done_eps files robot \<union> {ep. Inr (robot, ep, True) \<in> set futs})
   \<and> ((\<forall>fut \<in> set futs. \<not> isl fut) \<and> mset futs = mset futs' \<longrightarrow>
        done_eps (fst (collect_results files futs)) robot
          = done_eps (fst (collect_results files futs')) robot)"
proof (intro conjI impI)
  show "done_eps (fst (collect_results files futs)) robot
     = done_eps files robot
       \<union> {ep. Inr (robot, ep, True) \<in> set (takeWhile (\<lambda>fut. \<not> isl fut) futs)}"
    by (rule collect_results_prefix)
next
  assume a: "\<forall>fut \<in> set futs. \<not> isl fut"
  then show "snd (collect_results files futs) = None" by (simp add: collect_results_ends)
  from a have "takeWhile (\<lambda>fut. \<not> isl fut) futs = futs" by (simp add: takeWhile_eq_all_conv)
  then show "done_eps (fst (collect_results files futs)) robot
            = done_eps files robot \<union> {ep. Inr (robot, ep, True) \<in> set futs}"
    using collect_results_prefix [of files futs robot] by (simp only:)
next
  assume "(\<forall>fut \<in> set futs. \<not> isl fut) \<and> mset futs = mset futs'"
  then have a: "\<forall>fut \<in> set futs. \<not> isl fut" and m: "mset futs = mset futs'" by simp_all
  from m have s: "set futs = set futs'" by (rule mset_eq_setD)
  with a have a': "\<forall>fut \<in> set futs'. \<not> isl fut" by simp
  from a have t: "takeWhile (\<lambda>fut. \<not> isl fut) futs = futs"
    by (simp add: takeWhile_eq_all_conv)
  from a' have t': "takeWhile (\<lambda>fut. \<not> isl fut) futs' = futs'"
    by (simp add: takeWhile_eq_all_conv)
  have "done_eps (fst (collect_results files futs)) robot
          = done_eps files robot \<union> {ep. Inr (robot, ep, True) \<in> set futs}"
    using collect_results_prefix [of files futs robot] unfolding t .
  moreover have "done_eps (fst (collect_results files futs')) robot
          = done_eps files robot \<union> {ep. Inr (robot, ep, True) \<in> set futs'}"
    using collect_results_prefix [of files futs' robot] unfolding t' .
  ultimately show "done_eps (fst (collect_results files futs)) robot
          = done_eps (fst (collect_results files futs')) robot"
    by (simp only: s)
qed

lemma toy_raise_first:
  "done_eps (fst (collect_results no_whitelists [Inl ValueError, Inr (''Sawyer'', 0, True)]))
     ''Sawyer'' = {}"
  by (simp add: done_eps_def no_whitelists_def)

lemma toy_raise_last:
  "done_eps (fst (collect_results no_whitelists [Inr (''Sawyer'', 0, True), Inl ValueError]))
     ''Sawyer'' = {0}"
  by (simp add: done_eps_def whitelist_append_def no_whitelists_def)

lemma toy_raise_permutation:
  "mset [Inl ValueError, Inr (''Sawyer'', 0 :: int, True)]
     = mset [Inr (''Sawyer'', 0, True), Inl ValueError]"
  by simp

text \<open>
  Claim C8 does not hold as stated. A worker can raise (the unknown robot of the previous
  section), and \<^verbatim>\<open>fut.result()\<close> raises again in the dispatcher and ends its loop. Take
  two completed futures, one that raised and one that reports success for episode 0 of
  \<^verbatim>\<open>Sawyer\<close>: when the raising one completes first, nothing is persisted and the
  reported success is lost; when it completes last, the set is \<open>{0}\<close>.
\<close>

theorem checkpoint_order_counterexample:
  "generate_one_episode None toy_make_wrapper no_offsets ''Baxter'' 0 False False
     = Inl ValueError
   \<and> mset [Inl ValueError, Inr (''Sawyer'', 0 :: int, True)]
     = mset [Inr (''Sawyer'', 0, True), Inl ValueError]
   \<and> done_eps (fst (collect_results no_whitelists
         [Inl ValueError, Inr (''Sawyer'', 0, True)])) ''Sawyer'' = {}
   \<and> done_eps (fst (collect_results no_whitelists
         [Inr (''Sawyer'', 0, True), Inl ValueError])) ''Sawyer'' = {0}"
  using toy_unknown_robot toy_raise_permutation toy_raise_first toy_raise_last
  by (intro conjI)

lemma toy_all_returned:
  "\<forall>fut \<in> set [Inr (''Sawyer'', 3 :: int, True), Inr (''Sawyer'', 1, False),
                  Inr (''Panda'', 2, True) :: exn + string \<times> int \<times> bool]. \<not> isl fut"
  by simp

lemma toy_permutation:
  "mset [Inr (''Sawyer'', 3 :: int, True), Inr (''Sawyer'', 1, False),
         Inr (''Panda'', 2, True) :: exn + string \<times> int \<times> bool]
     = mset [Inr (''Panda'', 2, True), Inr (''Sawyer'', 1, False), Inr (''Sawyer'', 3, True)]"
  by simp

lemma toy_collect:
  "done_eps (fst (collect_results (whitelist_append no_whitelists ''Sawyer'' 0)
       [Inr (''Sawyer'', 3, True), Inr (''Sawyer'', 1, False), Inr (''Panda'', 2, True)]))
     ''Sawyer'' = {0, 3}"
  by (simp add: done_eps_def whitelist_append_def no_whitelists_def)

lemma toy_collect_raise:
  "done_eps (fst (collect_results (whitelist_append no_whitelists ''Sawyer'' 0)
       [Inr (''Sawyer'', 3, True), Inl ValueError, Inr (''Sawyer'', 5, True)]))
     ''Sawyer'' = {0, 3}"
  by (simp add: done_eps_def whitelist_append_def no_whitelists_def)

theorem checkpoint_is_union_until_first_raise_witness:
  "done_eps (fst (collect_results (whitelist_append no_whitelists ''Sawyer'' 0)
       [Inr (''Sawyer'', 3, True), Inl ValueError, Inr (''Sawyer'', 5, True)]))
     ''Sawyer'' = {0, 3}
   \<and> done_eps (fst (collect_results (whitelist_append no_whitelists ''Sawyer'' 0)
       [Inr (''Sawyer'', 3, True), Inl ValueError, Inr (''Sawyer'', 5, True)]))
     ''Sawyer''
     = done_eps (whitelist_append no_whitelists ''Sawyer'' 0) ''Sawyer''
       \<union> {ep. Inr (''Sawyer'', ep, True) \<in> set (takeWhile (\<lambda>fut. \<not> isl fut)
              [Inr (''Sawyer'', 3, True), Inl ValueError, Inr (''Sawyer'', 5, True)])}
   \<and> snd (collect_results (whitelist_append no_whitelists ''Sawyer'' 0)
       [Inr (''Sawyer'', 3, True), Inr (''Sawyer'', 1, False), Inr (''Panda'', 2, True)]) = None
   \<and> done_eps (fst (collect_results (whitelist_append no_whitelists ''Sawyer'' 0)
       [Inr (''Sawyer'', 3, True), Inr (''Sawyer'', 1, False), Inr (''Panda'', 2, True)]))
     ''Sawyer'' = {0, 3}
   \<and> done_eps (fst (collect_results (whitelist_append no_whitelists ''Sawyer'' 0)
       [Inr (''Sawyer'', 3, True), Inr (''Sawyer'', 1, False), Inr (''Panda'', 2, True)]))
     ''Sawyer''
     = done_eps (fst (collect_results (whitelist_append no_whitelists ''Sawyer'' 0)
       [Inr (''Panda'', 2, True), Inr (''Sawyer'', 1, False), Inr (''Sawyer'', 3, True)]))
     ''Sawyer''"
proof -
  note A = checkpoint_is_union_until_first_raise
     [where files = "whitelist_append no_whitelists ''Sawyer'' 0"
        and futs = "[Inr (''Sawyer'', 3, True), Inl ValueError, Inr (''Sawyer'', 5, True)]"
        and robot = "''Sawyer''", THEN conjunct1]
  note T = checkpoint_is_union_until_first_raise
     [where files = "whitelist_append no_whitelists ''Sawyer'' 0"
        and futs = "[Inr (''Sawyer'', 3, True), Inr (''Sawyer'', 1, False),
                     Inr (''Panda'', 2, True)]"
        and futs' = "[Inr (''Panda'', 2, True), Inr (''Sawyer'', 1, False),
                      Inr (''Sawyer'', 3, True)]"
        and robot = "''Sawyer''"]
  note N = T [THEN conjunct2, THEN conjunct1, THEN mp, OF toy_all_returned, THEN conjunct1]
  note P = T [THEN conjunct2, THEN conjunct2, THEN mp,
              OF conjI [OF toy_all_returned toy_permutation]]
  from toy_collect_raise A N toy_collect P show ?thesis by (intro conjI)
qed

end
